theory Spec2Isabelle
  imports Complex_Main
begin

section \<open>One-versus-all squared-hinge SVM (solution.py)\<close>

text \<open>
  The class \<open>SVM\<close> of \<open>solution.py\<close> is embedded function by function. Python floats are
  modelled as the reals (rounding, infinities and nan are outside the model), numpy integer
  arrays as lists of \<open>int\<close>, and every exception the code can raise is a value \<open>Inl e\<close> of
  the result type \<open>error + 'a\<close>.
\<close>

subsection \<open>Errors\<close>

datatype error =
    ValueError          \<comment> \<open>shape mismatch, empty reduction, negative dimension, zero range step\<close>
  | IndexError          \<comment> \<open>index out of bounds\<close>
  | ZeroDivisionError   \<comment> \<open>Python scalar division by zero\<close>
  | AttributeError      \<comment> \<open>an attribute of the instance read before it is assigned\<close>
  | NotANumber          \<comment> \<open>numpy division 0/0: no exception, the result is nan, not a real\<close>

definition ebind :: "error + 'a \<Rightarrow> ('a \<Rightarrow> error + 'b) \<Rightarrow> error + 'b" where
  "ebind r f = (case r of Inl e \<Rightarrow> Inl e | Inr v \<Rightarrow> f v)"

subsection \<open>Two-dimensional arrays\<close>

text \<open>
  A numpy array of shape \<open>(nrows, ncols)\<close>: the shape is kept beside the rows, since an
  array with no row still has a column count.
\<close>

datatype 'a array2 = Array2 (nrows: nat) (ncols: nat) (elems: "'a list list")

definition wf_array :: "'a array2 \<Rightarrow> bool" where
  "wf_array A = (length (elems A) = nrows A \<and> list_all (\<lambda>r. length r = ncols A) (elems A))"

text \<open>The array \<open>A\<close> is a numpy array of shape \<open>(r, c)\<close>.\<close>

definition has_shape :: "'a array2 \<Rightarrow> nat \<Rightarrow> nat \<Rightarrow> bool" where
  "has_shape A r c = (wf_array A \<and> nrows A = r \<and> ncols A = c)"

definition entry :: "'a array2 \<Rightarrow> nat \<Rightarrow> nat \<Rightarrow> 'a" where
  "entry A i j = elems A ! i ! j"

definition map_array :: "('a \<Rightarrow> 'b) \<Rightarrow> 'a array2 \<Rightarrow> 'b array2" where
  "map_array f A = Array2 (nrows A) (ncols A) (map (map f) (elems A))"

subsection \<open>Indexing and argmax\<close>

text \<open>
  Python and numpy indexing into an axis of size \<open>n\<close>: an index in \<open>[0, n)\<close> is itself, an
  index in \<open>[-n, 0)\<close> counts from the end, anything else raises IndexError.
\<close>

definition py_index :: "nat \<Rightarrow> int \<Rightarrow> nat option" where
  "py_index n k =
     (if 0 \<le> k \<and> k < int n then Some (nat k)
      else if - int n \<le> k \<and> k < 0 then Some (nat (int n + k))
      else None)"

text \<open>
  \<open>np.argmax\<close> along a row: the index of the first occurrence of the maximum, found by a
  left-to-right scan that replaces the best index only on a strictly greater entry.
\<close>

primrec argmax_scan :: "'a::linorder list \<Rightarrow> nat \<Rightarrow> nat \<Rightarrow> 'a \<Rightarrow> nat" where
  "argmax_scan [] i best bv = best"
| "argmax_scan (x # xs) i best bv =
     (if bv < x then argmax_scan xs (Suc i) i x else argmax_scan xs (Suc i) best bv)"

definition argmax :: "'a::linorder list \<Rightarrow> nat" where
  "argmax xs = (case xs of [] \<Rightarrow> 0 | x # rest \<Rightarrow> argmax_scan rest 1 0 x)"

text \<open>The index \<open>k\<close> is the first position of a maximum of \<open>xs\<close>.\<close>

definition first_max :: "'a::linorder list \<Rightarrow> nat \<Rightarrow> bool" where
  "first_max xs k = (k < length xs \<and> (\<forall>j<length xs. xs ! j \<le> xs ! k) \<and> (\<forall>j<k. xs ! j < xs ! k))"

text \<open>\<open>np.argmax(A, axis=1)\<close>; with no column to choose from it raises ValueError.\<close>

definition argmax_axis1 :: "'a::linorder array2 \<Rightarrow> error + nat list" where
  "argmax_axis1 A = (if ncols A = 0 then Inl ValueError else Inr (map argmax (elems A)))"

subsection \<open>LabelEncoder: \<open>make_one_versus_all_labels\<close>\<close>

text \<open>
  \<^verbatim>\<open>
  n = len(y)
  ans = (np.ones((n, m))*(-1)).astype('int')
  for i in range(n):
      k = y[i]
      ans[i, k] = 1
  return ans
  \<close>
  \<open>np.ones((n, m))\<close> raises ValueError for a negative \<open>m\<close>. The loop writes row by row; the
  write \<open>ans[i, k] = 1\<close> follows numpy's indexing, so it raises IndexError for \<open>k\<close> outside
  \<open>[-m, m)\<close> and wraps a negative \<open>k\<close> in \<open>[-m, 0)\<close> around to column \<open>m + k\<close>.
\<close>

primrec ova_loop :: "int list \<Rightarrow> nat \<Rightarrow> nat list \<Rightarrow> int list list \<Rightarrow> error + int list list" where
  "ova_loop y m [] ans = Inr ans"
| "ova_loop y m (i # is) ans =
     (case py_index m (y ! i) of
        None \<Rightarrow> Inl IndexError
      | Some k \<Rightarrow> ova_loop y m is (ans[i := (ans ! i)[k := 1]]))"

definition make_one_versus_all_labels :: "int list \<Rightarrow> int \<Rightarrow> error + int array2" where
  "make_one_versus_all_labels y m =
     (let n = length y in
      if m < 0 then Inl ValueError
      else ebind (ova_loop y (nat m) [0..<n] (replicate n (replicate (nat m) (- 1))))
             (\<lambda>ans. Inr (Array2 n (nat m) ans)))"

subsection \<open>Linear algebra and broadcasting\<close>

text \<open>The columns of an array, left to right; an array with no row still has \<open>ncols\<close> of them.\<close>

definition columns :: "'a array2 \<Rightarrow> 'a list list" where
  "columns A = map (\<lambda>j. map (\<lambda>r. r ! j) (elems A)) [0..<ncols A]"

definition transpose_array :: "'a array2 \<Rightarrow> 'a array2" where
  "transpose_array A = Array2 (ncols A) (nrows A) (columns A)"

definition dot :: "real list \<Rightarrow> real list \<Rightarrow> real" where
  "dot u v = sum_list (map2 (*) u v)"

text \<open>\<open>A @ B\<close>: the inner dimensions must agree, or numpy raises ValueError.\<close>

definition matmul :: "real array2 \<Rightarrow> real array2 \<Rightarrow> error + real array2" where
  "matmul A B =
     (if ncols A \<noteq> nrows B then Inl ValueError
      else Inr (Array2 (nrows A) (ncols B) (map (\<lambda>r. map (dot r) (columns B)) (elems A))))"

text \<open>
  Elementwise operators broadcast: two axis lengths are compatible when they are equal or one
  of them is 1, and the axis of length 1 is repeated. Incompatible shapes raise ValueError.
\<close>

definition broadcast_dim :: "nat \<Rightarrow> nat \<Rightarrow> nat option" where
  "broadcast_dim a b =
     (if a = b then Some a else if a = 1 then Some b else if b = 1 then Some a else None)"

definition stretch :: "nat \<Rightarrow> 'a list \<Rightarrow> 'a list" where
  "stretch n xs = (if length xs = n then xs else replicate n (hd xs))"

definition broadcast_to :: "nat \<Rightarrow> nat \<Rightarrow> 'a array2 \<Rightarrow> 'a list list" where
  "broadcast_to r c A = stretch r (map (stretch c) (elems A))"

definition elementwise :: "('a \<Rightarrow> 'b \<Rightarrow> 'c) \<Rightarrow> 'a array2 \<Rightarrow> 'b array2 \<Rightarrow> error + 'c array2" where
  "elementwise f A B =
     (case broadcast_dim (nrows A) (nrows B) of
        None \<Rightarrow> Inl ValueError
      | Some r \<Rightarrow>
          (case broadcast_dim (ncols A) (ncols B) of
             None \<Rightarrow> Inl ValueError
           | Some c \<Rightarrow> Inr (Array2 r c (map2 (map2 f) (broadcast_to r c A) (broadcast_to r c B)))))"

text \<open>\<open>np.sum\<close> of all entries.\<close>

definition sum_array :: "real array2 \<Rightarrow> real" where
  "sum_array A = sum_list (map sum_list (elems A))"

text \<open>
  \<open>np.linalg.norm(w, ord=2)\<close> of a two-dimensional array is the spectral norm: the largest
  singular value, that is the greatest length of \<open>w v\<close> over the unit vectors \<open>v\<close>. It is a
  library routine (computed by a singular value decomposition) and is specified here rather
  than programmed. On an array with no row or no column the reduction over the singular
  values is empty and numpy raises ValueError.
\<close>

definition unit_vectors :: "nat \<Rightarrow> real list set" where
  "unit_vectors d = {v. length v = d \<and> sum_list (map (\<lambda>a. a\<^sup>2) v) = 1}"

definition apply_norm :: "real array2 \<Rightarrow> real list \<Rightarrow> real" where
  "apply_norm W v = sqrt (sum_list (map (\<lambda>r. (dot r v)\<^sup>2) (elems W)))"

definition spectral_norm :: "real array2 \<Rightarrow> error + real" where
  "spectral_norm W =
     (if nrows W = 0 \<or> ncols W = 0 then Inl ValueError
      else Inr (Sup (apply_norm W ` unit_vectors (ncols W))))"

text \<open>\<open>y.max()\<close> of a one-dimensional integer array; the empty array raises ValueError.\<close>

definition array_max :: "int list \<Rightarrow> error + int" where
  "array_max y = (case y of [] \<Rightarrow> Inl ValueError | x # xs \<Rightarrow> Inr (fold max xs x))"

subsection \<open>The model instance\<close>

text \<open>
  The fields of \<open>self\<close>. The constructor sets the five hyperparameters; \<open>num_features\<close>, \<open>m\<close> and
  \<open>w\<close> do not exist until \<open>fit\<close> assigns them, and reading a missing attribute raises
  AttributeError.
\<close>

record svm =
  self_eta :: real
  self_C :: real
  self_niter :: int
  self_batch_size :: int
  self_verbose :: bool
  self_num_features :: "nat option"
  self_m :: "int option"
  self_w :: "real array2 option"

definition init :: "real \<Rightarrow> real \<Rightarrow> int \<Rightarrow> int \<Rightarrow> bool \<Rightarrow> svm" where
  "init eta C niter batch_size verbose =
     \<lparr>self_eta = eta, self_C = C, self_niter = niter, self_batch_size = batch_size,
      self_verbose = verbose, self_num_features = None, self_m = None, self_w = None\<rparr>"

definition get_w :: "svm \<Rightarrow> error + real array2" where
  "get_w s = (case self_w s of None \<Rightarrow> Inl AttributeError | Some W \<Rightarrow> Inr W)"

subsection \<open>LossGradientEngine: \<open>compute_loss\<close> and \<open>compute_gradient\<close>\<close>

text \<open>
  \<^verbatim>\<open>
  n, m = x.shape
  hinge_loss = 1/n * np.sum(np.maximum(0, 2 - (x @ self.w) * y)**2)
  regularisation_loss = self.C/2 * np.sum(np.linalg.norm(self.w, ord=2)**2)
  loss = float(hinge_loss + regularisation_loss)
  \<close>
  \<open>1/n\<close> is evaluated first and is a Python division, so no row raises ZeroDivisionError.
  \<open>np.sum\<close> of the squared norm, a scalar, is that scalar.
\<close>

definition compute_loss :: "svm \<Rightarrow> real array2 \<Rightarrow> real array2 \<Rightarrow> error + real" where
  "compute_loss s x y =
     (let n = nrows x in
      if n = 0 then Inl ZeroDivisionError
      else
        ebind (get_w s) (\<lambda>W.
        ebind (matmul x W) (\<lambda>xw.
        ebind (elementwise (*) xw y) (\<lambda>p.
          let hinge_loss = 1 / real n * sum_array (map_array (\<lambda>v. (max 0 (2 - v))\<^sup>2) p) in
          ebind (spectral_norm W) (\<lambda>nw.
            let regularisation_loss = self_C s / 2 * nw\<^sup>2 in
            Inr (hinge_loss + regularisation_loss))))))"

text \<open>
  \<^verbatim>\<open>
  n, m = x.shape
  maxes = np.maximum(0, 2 - (x @ self.w) * y)
  regularization_grad = self.C * self.w
  a = 2 - (x @ self.w) * y
  ones_or_zeros = (a > 0).astype(int)
  loss_grad = -2/n * (np.transpose(x) @ (y * maxes * ones_or_zeros))
  return loss_grad + regularization_grad
  \<close>
  The second evaluation of \<open>(x @ self.w) * y\<close> gives the value of the first. \<open>-2/n\<close> is
  evaluated before the product it scales.
\<close>

definition compute_gradient :: "svm \<Rightarrow> real array2 \<Rightarrow> real array2 \<Rightarrow> error + real array2" where
  "compute_gradient s x y =
     (let n = nrows x in
      ebind (get_w s) (\<lambda>W.
      ebind (matmul x W) (\<lambda>xw.
      ebind (elementwise (*) xw y) (\<lambda>p.
        let maxes = map_array (\<lambda>v. max 0 (2 - v)) p;
            regularization_grad = map_array (\<lambda>v. self_C s * v) W;
            a = map_array (\<lambda>v. 2 - v) p;
            ones_or_zeros = map_array (\<lambda>v. if 0 < v then 1 else 0) a
        in
        if n = 0 then Inl ZeroDivisionError
        else
          ebind (elementwise (*) y maxes) (\<lambda>ym.
          ebind (elementwise (*) ym ones_or_zeros) (\<lambda>ymo.
          ebind (matmul (transpose_array x) ymo) (\<lambda>xt.
            let loss_grad = map_array (\<lambda>v. - 2 / real n * v) xt in
            elementwise (+) loss_grad regularization_grad)))))))"

subsection \<open>Batcher: \<open>minibatch\<close>\<close>

text \<open>
  \<^verbatim>\<open>
  l = len(iterable1)
  n = size
  for ndx in range(0, l, n):
      index2 = min(ndx + n, l)
      yield iterable1[ndx: index2], iterable2[ndx: index2]
  \<close>
  \<open>range\<close> with step 0 raises ValueError, and with a negative step from 0 it is empty. The
  slice of an array keeps the rows from \<open>ndx\<close> up to \<open>index2\<close> that exist. The generator is
  modelled by the list of what it yields.
\<close>

function range_step :: "nat \<Rightarrow> nat \<Rightarrow> nat \<Rightarrow> nat list" where
  "range_step ndx l n = (if n = 0 \<or> l \<le> ndx then [] else ndx # range_step (ndx + n) l n)"
  by pat_completeness auto
termination
  by (relation "measure (\<lambda>(ndx, l, n). l - ndx)") auto

definition slice_rows :: "'a array2 \<Rightarrow> nat \<Rightarrow> nat \<Rightarrow> 'a array2" where
  "slice_rows A a b =
     (let rs = take (b - a) (drop a (elems A)) in Array2 (length rs) (ncols A) rs)"

definition minibatch :: "'a array2 \<Rightarrow> 'b array2 \<Rightarrow> int \<Rightarrow> error + ('a array2 \<times> 'b array2) list" where
  "minibatch iterable1 iterable2 bsize =
     (let l = nrows iterable1; n = bsize in
      if n = 0 then Inl ValueError
      else if n < 0 then Inr []
      else Inr (map (\<lambda>ndx. let index2 = min (ndx + nat n) l
                            in (slice_rows iterable1 ndx index2, slice_rows iterable2 ndx index2))
                  (range_step 0 l (nat n))))"

subsection \<open>Evaluator: \<open>infer\<close> and \<open>compute_accuracy\<close>\<close>

text \<open>
  \<^verbatim>\<open>
  y = x @ self.w
  pred = np.argmax(y, axis=1)
  return self.make_one_versus_all_labels(pred, y.shape[1])
  \<close>
\<close>

definition infer :: "svm \<Rightarrow> real array2 \<Rightarrow> error + int array2" where
  "infer s x =
     ebind (get_w s) (\<lambda>W.
     ebind (matmul x W) (\<lambda>y.
     ebind (argmax_axis1 y) (\<lambda>pred.
       make_one_versus_all_labels (map int pred) (int (ncols y)))))"

text \<open>
  \<^verbatim>\<open>
  true = np.argmax(y, axis=1)
  pred = np.argmax(y_inferred, axis=1)
  good = np.sum(pred == true)
  return good/len(y)
  \<close>
  The comparison broadcasts like every elementwise operator. \<open>good\<close> is a numpy integer, so a
  division by \<open>len(y) = 0\<close> does not raise: it yields nan.
\<close>

definition count_equal :: "nat list \<Rightarrow> nat list \<Rightarrow> error + nat" where
  "count_equal pred true =
     (case broadcast_dim (length pred) (length true) of
        None \<Rightarrow> Inl ValueError
      | Some r \<Rightarrow> Inr (length (filter (\<lambda>(p, t). p = t) (zip (stretch r pred) (stretch r true)))))"

definition compute_accuracy :: "'a::linorder array2 \<Rightarrow> 'b::linorder array2 \<Rightarrow> error + real" where
  "compute_accuracy y_inferred y =
     ebind (argmax_axis1 y) (\<lambda>true.
     ebind (argmax_axis1 y_inferred) (\<lambda>pred.
     ebind (count_equal pred true) (\<lambda>good.
       if nrows y = 0 then Inl NotANumber else Inr (real good / real (nrows y)))))"

subsection \<open>Trainer: \<open>fit\<close>\<close>

text \<open>
  \<open>self.w -= self.eta * grad\<close>: an update in place, so the broadcast result must have the
  shape of \<open>self.w\<close>, or numpy raises ValueError.
\<close>

definition update_w :: "svm \<Rightarrow> real array2 \<Rightarrow> error + svm" where
  "update_w s grad =
     ebind (get_w s) (\<lambda>W.
     ebind (elementwise (-) W (map_array (\<lambda>v. self_eta s * v) grad)) (\<lambda>W'.
       if nrows W' = nrows W \<and> ncols W' = ncols W then Inr (s\<lparr>self_w := Some W'\<rparr>)
       else Inl ValueError))"

text \<open>
  The inner loop, one pass through the mini-batches: each gradient is taken at the weights
  the previous update left. The labels are an integer array, promoted to floats where they
  meet the scores.
  \<^verbatim>\<open>
  for x, y in self.minibatch(x_train, y_train, size=self.batch_size):
      grad = self.compute_gradient(x, y)
      self.w -= self.eta * grad
  \<close>
\<close>

primrec train_batches :: "svm \<Rightarrow> (real array2 \<times> int array2) list \<Rightarrow> error + svm" where
  "train_batches s [] = Inr s"
| "train_batches s (b # bs) =
     ebind (compute_gradient s (fst b) (map_array real_of_int (snd b))) (\<lambda>grad.
     ebind (update_w s grad) (\<lambda>s'.
       train_batches s' bs))"

text \<open>
  The body of the epoch loop: the pass through the mini-batches, then the four metrics on
  the full sets. With \<open>verbose\<close> set the code also prints them; printing changes no value and
  is left out.
\<close>

definition epoch ::
  "svm \<Rightarrow> real array2 \<Rightarrow> int array2 \<Rightarrow> real array2 \<Rightarrow> int array2 \<Rightarrow>
     error + ((real \<times> real \<times> real \<times> real) \<times> svm)" where
  "epoch s x_train y_train x_test y_test =
     ebind (minibatch x_train y_train (self_batch_size s)) (\<lambda>batches.
     ebind (train_batches s batches) (\<lambda>s'.
     ebind (compute_loss s' x_train (map_array real_of_int y_train)) (\<lambda>train_loss.
     ebind (infer s' x_train) (\<lambda>y_inferred.
     ebind (compute_accuracy y_inferred y_train) (\<lambda>train_accuracy.
     ebind (compute_loss s' x_test (map_array real_of_int y_test)) (\<lambda>test_loss.
     ebind (infer s' x_test) (\<lambda>y_inferred.
     ebind (compute_accuracy y_inferred y_test) (\<lambda>test_accuracy.
       Inr ((train_loss, train_accuracy, test_loss, test_accuracy), s')))))))))"

text \<open>
  \<open>for iteration in range(self.niter)\<close>, by the number of iterations left; the four lists grow
  by one entry per iteration.
\<close>

primrec fit_loop ::
  "nat \<Rightarrow> svm \<Rightarrow> real array2 \<Rightarrow> int array2 \<Rightarrow> real array2 \<Rightarrow> int array2 \<Rightarrow>
     real list \<Rightarrow> real list \<Rightarrow> real list \<Rightarrow> real list \<Rightarrow>
     error + ((real list \<times> real list \<times> real list \<times> real list) \<times> svm)" where
  "fit_loop 0 s x_train y_train x_test y_test train_losses train_accs test_losses test_accs =
     Inr ((train_losses, train_accs, test_losses, test_accs), s)"
| "fit_loop (Suc k) s x_train y_train x_test y_test train_losses train_accs test_losses test_accs =
     ebind (epoch s x_train y_train x_test y_test) (\<lambda>r.
       case r of ((train_loss, train_accuracy, test_loss, test_accuracy), s') \<Rightarrow>
         fit_loop k s' x_train y_train x_test y_test
           (train_losses @ [train_loss]) (train_accs @ [train_accuracy])
           (test_losses @ [test_loss]) (test_accs @ [test_accuracy]))"

text \<open>\<open>np.zeros([r, c])\<close>; a negative dimension raises ValueError.\<close>

definition zeros :: "nat \<Rightarrow> int \<Rightarrow> error + real array2" where
  "zeros r c =
     (if c < 0 then Inl ValueError else Inr (Array2 r (nat c) (replicate r (replicate (nat c) 0))))"

text \<open>
  \<^verbatim>\<open>
  self.num_features = x_train.shape[1]
  self.m = y_train.max() + 1
  y_train = self.make_one_versus_all_labels(y_train, self.m)
  y_test = self.make_one_versus_all_labels(y_test, self.m)
  self.w = np.zeros([self.num_features, self.m])
  ...
  for iteration in range(self.niter): ...
  return train_losses, train_accs, test_losses, test_accs
  \<close>
  The result is the four lists together with the instance as the call leaves it. \<open>range\<close> of a
  negative \<open>niter\<close> is empty.
\<close>

definition fit ::
  "svm \<Rightarrow> real array2 \<Rightarrow> int list \<Rightarrow> real array2 \<Rightarrow> int list \<Rightarrow>
     error + ((real list \<times> real list \<times> real list \<times> real list) \<times> svm)" where
  "fit s x_train y_train x_test y_test =
     (let s1 = s\<lparr>self_num_features := Some (ncols x_train)\<rparr> in
      ebind (array_max y_train) (\<lambda>mx.
      let s2 = s1\<lparr>self_m := Some (mx + 1)\<rparr> in
      ebind (make_one_versus_all_labels y_train (mx + 1)) (\<lambda>y_train'.
      ebind (make_one_versus_all_labels y_test (mx + 1)) (\<lambda>y_test'.
      ebind (zeros (ncols x_train) (mx + 1)) (\<lambda>W0.
      let s3 = s2\<lparr>self_w := Some W0\<rparr> in
      fit_loop (nat (self_niter s3)) s3 x_train y_train' x_test y_test' [] [] [] [])))))"

text \<open>
  The instance after \<open>k\<close> passes through the mini-batches, started from \<open>s\<close>: the weights
  "as they stand after all mini-batch updates" of epoch \<open>k\<close>, counted from 1.
\<close>

primrec after_epochs :: "nat \<Rightarrow> svm \<Rightarrow> real array2 \<Rightarrow> int array2 \<Rightarrow> error + svm" where
  "after_epochs 0 s x_train y_train = Inr s"
| "after_epochs (Suc k) s x_train y_train =
     ebind (after_epochs k s x_train y_train) (\<lambda>s'.
     ebind (minibatch x_train y_train (self_batch_size s')) (\<lambda>batches.
       train_batches s' batches))"

subsection \<open>The specification's formulas\<close>

text \<open>
  The margin of example \<open>i\<close> for class \<open>j\<close>, entry \<open>(i, j)\<close> of \<open>2 - (X W) \<odot> Y\<close>, for \<open>X\<close> with \<open>d\<close>
  columns.
\<close>

definition margin :: "real array2 \<Rightarrow> real array2 \<Rightarrow> real array2 \<Rightarrow> nat \<Rightarrow> nat \<Rightarrow> nat \<Rightarrow> real" where
  "margin X W Y d i j = 2 - (\<Sum>k<d. entry X i k * entry W k j) * entry Y i j"

text \<open>
  The loss as the specification states it: the squared hinge terms summed over all \<open>n m\<close>
  margins and divided by \<open>n\<close>, plus \<open>C/2\<close> times the squared Frobenius norm of \<open>W\<close>, the sum of
  the squares of all its entries.
\<close>

definition frobenius_sq :: "real array2 \<Rightarrow> nat \<Rightarrow> nat \<Rightarrow> real" where
  "frobenius_sq W d m = (\<Sum>k<d. \<Sum>j<m. (entry W k j)\<^sup>2)"

definition hinge_spec :: "real array2 \<Rightarrow> real array2 \<Rightarrow> real array2 \<Rightarrow> nat \<Rightarrow> nat \<Rightarrow> nat \<Rightarrow> real" where
  "hinge_spec X W Y n d m = 1 / real n * (\<Sum>i<n. \<Sum>j<m. (max 0 (margin X W Y d i j))\<^sup>2)"

definition loss_spec :: "real array2 \<Rightarrow> real \<Rightarrow> real array2 \<Rightarrow> real array2 \<Rightarrow> nat \<Rightarrow> nat \<Rightarrow> nat \<Rightarrow> real" where
  "loss_spec W C X Y n d m = hinge_spec X W Y n d m + C / 2 * frobenius_sq W d m"

text \<open>
  The loss and the accuracy on a full set \<open>(x, y)\<close> with the weights of the instance \<open>s\<close>, as
  each epoch measures them.
\<close>

definition metrics :: "svm \<Rightarrow> real array2 \<Rightarrow> int array2 \<Rightarrow> error + (real \<times> real)" where
  "metrics s x y =
     ebind (compute_loss s x (map_array real_of_int y)) (\<lambda>loss.
     ebind (infer s x) (\<lambda>y_inferred.
     ebind (compute_accuracy y_inferred y) (\<lambda>accuracy.
       Inr (loss, accuracy))))"

section \<open>Properties\<close>

subsection \<open>Argmax\<close>

lemma argmax_scan_spec:
  assumes "i = length pre" "best < i" "bv = (pre @ xs) ! best"
    and "\<forall>j<i. (pre @ xs) ! j \<le> bv" "\<forall>j<best. (pre @ xs) ! j < bv"
  shows "argmax_scan xs i best bv < length (pre @ xs) \<and>
         (\<forall>j<length (pre @ xs). (pre @ xs) ! j \<le> (pre @ xs) ! argmax_scan xs i best bv) \<and>
         (\<forall>j<argmax_scan xs i best bv. (pre @ xs) ! j < (pre @ xs) ! argmax_scan xs i best bv)"
  using assms
proof (induction xs arbitrary: pre i best bv)
  case Nil
  then show ?case by simp
next
  case (Cons x xs)
  have app: "pre @ x # xs = (pre @ [x]) @ xs" by simp
  have xi: "(pre @ x # xs) ! i = x" using Cons.prems(1) by simp
  show ?case
  proof (cases "bv < x")
    case True
    have "\<forall>j<Suc i. ((pre @ [x]) @ xs) ! j \<le> x"
    proof (intro allI impI)
      fix j assume "j < Suc i"
      then consider "j < i" | "j = i" by linarith
      then show "((pre @ [x]) @ xs) ! j \<le> x"
      proof cases
        case 1
        then have "(pre @ x # xs) ! j \<le> bv" using Cons.prems(4) by blast
        then show ?thesis using True by simp
      next
        case 2
        then show ?thesis using xi by simp
      qed
    qed
    moreover have "\<forall>j<i. ((pre @ [x]) @ xs) ! j < x"
    proof (intro allI impI)
      fix j assume "j < i"
      then have "(pre @ x # xs) ! j \<le> bv" using Cons.prems(4) by blast
      then show "((pre @ [x]) @ xs) ! j < x" using True by simp
    qed
    moreover have "x = ((pre @ [x]) @ xs) ! i" using xi by simp
    moreover have "Suc i = length (pre @ [x])" using Cons.prems(1) by simp
    ultimately have "argmax_scan xs (Suc i) i x < length ((pre @ [x]) @ xs) \<and>
         (\<forall>j<length ((pre @ [x]) @ xs). ((pre @ [x]) @ xs) ! j \<le> ((pre @ [x]) @ xs) ! argmax_scan xs (Suc i) i x) \<and>
         (\<forall>j<argmax_scan xs (Suc i) i x. ((pre @ [x]) @ xs) ! j < ((pre @ [x]) @ xs) ! argmax_scan xs (Suc i) i x)"
      by (intro Cons.IH) auto
    then show ?thesis using True by (simp del: append_assoc add: app)
  next
    case False
    have "\<forall>j<Suc i. ((pre @ [x]) @ xs) ! j \<le> bv"
    proof (intro allI impI)
      fix j assume "j < Suc i"
      then consider "j < i" | "j = i" by linarith
      then show "((pre @ [x]) @ xs) ! j \<le> bv"
      proof cases
        case 1
        then show ?thesis using Cons.prems(4) by simp
      next
        case 2
        then show ?thesis using xi False by simp
      qed
    qed
    moreover have "\<forall>j<best. ((pre @ [x]) @ xs) ! j < bv" using Cons.prems(5) by simp
    moreover have "bv = ((pre @ [x]) @ xs) ! best" using Cons.prems(3) by simp
    moreover have "Suc i = length (pre @ [x])" using Cons.prems(1) by simp
    moreover have "best < Suc i" using Cons.prems(2) by simp
    ultimately have "argmax_scan xs (Suc i) best bv < length ((pre @ [x]) @ xs) \<and>
         (\<forall>j<length ((pre @ [x]) @ xs). ((pre @ [x]) @ xs) ! j \<le> ((pre @ [x]) @ xs) ! argmax_scan xs (Suc i) best bv) \<and>
         (\<forall>j<argmax_scan xs (Suc i) best bv. ((pre @ [x]) @ xs) ! j < ((pre @ [x]) @ xs) ! argmax_scan xs (Suc i) best bv)"
      by (intro Cons.IH) auto
    then show ?thesis using False by (simp del: append_assoc add: app)
  qed
qed

lemma first_max_unique: "first_max xs k \<Longrightarrow> first_max xs k' \<Longrightarrow> k = k'"
  unfolding first_max_def by (metis linorder_neqE_nat not_le)

lemma argmax_first_max: "xs \<noteq> [] \<Longrightarrow> first_max xs (argmax xs)"
proof (cases xs)
  case Nil
  assume "xs \<noteq> []"
  with Nil show ?thesis by simp
next
  case (Cons x rest)
  have "argmax_scan rest 1 0 x < length ([x] @ rest) \<and>
         (\<forall>j<length ([x] @ rest). ([x] @ rest) ! j \<le> ([x] @ rest) ! argmax_scan rest 1 0 x) \<and>
         (\<forall>j<argmax_scan rest 1 0 x. ([x] @ rest) ! j < ([x] @ rest) ! argmax_scan rest 1 0 x)"
    by (rule argmax_scan_spec) auto
  then show ?thesis using Cons by (simp add: first_max_def argmax_def)
qed

lemma argmax_eqI: "first_max xs k \<Longrightarrow> argmax xs = k"
proof -
  assume h: "first_max xs k"
  then have "xs \<noteq> []" by (auto simp: first_max_def)
  then have "first_max xs (argmax xs)" by (rule argmax_first_max)
  then show ?thesis using h first_max_unique by blast
qed

subsection \<open>The error monad\<close>

lemma ebind_Inr [simp]: "ebind (Inr v) f = f v"
  by (simp add: ebind_def)

lemma ebind_Inl [simp]: "ebind (Inl e) f = Inl e"
  by (simp add: ebind_def)

subsection \<open>LabelEncoder\<close>

lemma ova_loop_ok:
  assumes "distinct is" "\<forall>i\<in>set is. i < length ans \<and> py_index m (y ! i) \<noteq> None"
  shows "\<exists>ans'. ova_loop y m is ans = Inr ans' \<and> length ans' = length ans \<and>
     (\<forall>i<length ans. ans' ! i = (if i \<in> set is then (ans ! i)[the (py_index m (y ! i)) := 1] else ans ! i))"
  using assms
proof (induction "is" arbitrary: ans)
  case Nil
  then show ?case by simp
next
  case (Cons a "is")
  from Cons.prems obtain k where k: "py_index m (y ! a) = Some k" by auto
  let ?ans = "ans[a := (ans ! a)[k := 1]]"
  have "\<exists>ans'. ova_loop y m is ?ans = Inr ans' \<and> length ans' = length ?ans \<and>
     (\<forall>i<length ?ans. ans' ! i = (if i \<in> set is then (?ans ! i)[the (py_index m (y ! i)) := 1] else ?ans ! i))"
    using Cons.prems by (intro Cons.IH) auto
  then obtain ans' where a: "ova_loop y m is ?ans = Inr ans'" "length ans' = length ans"
    "\<forall>i<length ans. ans' ! i = (if i \<in> set is then (?ans ! i)[the (py_index m (y ! i)) := 1] else ?ans ! i)"
    by auto
  have "\<forall>i<length ans. ans' ! i = (if i \<in> set (a # is) then (ans ! i)[the (py_index m (y ! i)) := 1] else ans ! i)"
  proof (intro allI impI)
    fix i assume i: "i < length ans"
    show "ans' ! i = (if i \<in> set (a # is) then (ans ! i)[the (py_index m (y ! i)) := 1] else ans ! i)"
    proof (cases "i = a")
      case True
      then have "i \<notin> set is" using Cons.prems(1) by simp
      then show ?thesis using a(3) i True k by simp
    next
      case False
      then show ?thesis using a(3) i by simp
    qed
  qed
  then show ?case using a k by simp
qed

lemma ova_loop_err:
  "\<exists>i\<in>set is. py_index m (y ! i) = None \<Longrightarrow> ova_loop y m is ans = Inl IndexError"
  by (induction "is" arbitrary: ans) (auto split: option.splits)

lemma ova_loop_Inr_valid:
  "ova_loop y m is ans = Inr ans' \<Longrightarrow> i \<in> set is \<Longrightarrow> py_index m (y ! i) \<noteq> None"
  using ova_loop_err by fastforce

lemma encode_rows:
  assumes "0 \<le> m" "\<forall>i<length y. py_index (nat m) (y ! i) \<noteq> None"
  shows "make_one_versus_all_labels y m =
     Inr (Array2 (length y) (nat m) (map (\<lambda>k. (replicate (nat m) (- 1))[the (py_index (nat m) k) := 1]) y))"
proof -
  let ?n = "length y"
  let ?init = "replicate ?n (replicate (nat m) (- 1::int))"
  have "\<exists>ans'. ova_loop y (nat m) [0..<?n] ?init = Inr ans' \<and> length ans' = length ?init \<and>
     (\<forall>i<length ?init. ans' ! i = (if i \<in> set [0..<?n] then (?init ! i)[the (py_index (nat m) (y ! i)) := 1] else ?init ! i))"
    using assms by (intro ova_loop_ok) auto
  then obtain ans' where a: "ova_loop y (nat m) [0..<?n] ?init = Inr ans'" "length ans' = ?n"
    "\<forall>i<?n. ans' ! i = (replicate (nat m) (- 1))[the (py_index (nat m) (y ! i)) := 1]"
    by auto
  have "ans' = map (\<lambda>k. (replicate (nat m) (- 1))[the (py_index (nat m) k) := 1]) y"
    using a(2,3) by (intro nth_equalityI) auto
  then show ?thesis using a(1) assms(1) by (simp add: make_one_versus_all_labels_def Let_def)
qed

lemma encode_error:
  assumes "0 \<le> m" "i < length y" "py_index (nat m) (y ! i) = None"
  shows "make_one_versus_all_labels y m = Inl IndexError"
proof -
  have "\<exists>i\<in>set [0..<length y]. py_index (nat m) (y ! i) = None" using assms by auto
  then have "ova_loop y (nat m) [0..<length y] (replicate (length y) (replicate (nat m) (- 1))) = Inl IndexError"
    by (rule ova_loop_err)
  then show ?thesis using assms(1) by (simp add: make_one_versus_all_labels_def Let_def)
qed

lemma first_max_onehot:
  "k < m \<Longrightarrow> first_max ((replicate m (- 1::int))[k := 1]) k"
  by (auto simp: first_max_def nth_list_update)

lemma count_onehot: "k < m \<Longrightarrow> count_list ((replicate m (- 1::int))[k := 1]) 1 = 1"
proof -
  assume k: "k < m"
  have "(replicate m (- 1::int))[k := 1] = replicate k (- 1) @ [1] @ replicate (m - Suc k) (- 1)"
    using k by (intro nth_equalityI) (auto simp: nth_list_update nth_append nth_Cons')
  then show ?thesis by (simp add: count_list_0_iff)
qed

lemma py_index_in_range: "0 \<le> k \<Longrightarrow> k < int m \<Longrightarrow> py_index m k = Some (nat k)"
  by (simp add: py_index_def)

lemma encode_in_range:
  assumes "0 < m" and "\<forall>i<length y. 0 \<le> y ! i \<and> y ! i < m"
  shows "\<exists>Y. make_one_versus_all_labels y m = Inr Y \<and> wf_array Y \<and>
           nrows Y = length y \<and> ncols Y = nat m \<and>
           (\<forall>i<length y. \<forall>j<nat m. entry Y i j = (if int j = y ! i then 1 else - 1)) \<and>
           (\<forall>i<length y. count_list (elems Y ! i) 1 = 1) \<and>
           argmax_axis1 Y = Inr (map nat y)"
proof -
  let ?row = "\<lambda>k. (replicate (nat m) (- 1::int))[the (py_index (nat m) k) := 1]"
  let ?Y = "Array2 (length y) (nat m) (map ?row y)"
  have idx: "\<And>i. i < length y \<Longrightarrow> py_index (nat m) (y ! i) = Some (nat (y ! i))"
    using assms by (simp add: py_index_in_range)
  have lt: "\<And>i. i < length y \<Longrightarrow> nat (y ! i) < nat m"
    using assms by (simp add: nat_less_iff)
  have "make_one_versus_all_labels y m = Inr ?Y"
    using assms(1) idx by (intro encode_rows) auto
  moreover have "wf_array ?Y"
    by (simp add: wf_array_def list_all_iff)
  moreover have "\<forall>i<length y. \<forall>j<nat m. entry ?Y i j = (if int j = y ! i then 1 else - 1)"
    using idx assms(2) by (auto simp: entry_def nth_list_update)
  moreover have "\<forall>i<length y. count_list (elems ?Y ! i) 1 = 1"
    using idx lt by (simp add: count_onehot)
  moreover have "argmax_axis1 ?Y = Inr (map nat y)"
  proof -
    have "map argmax (map ?row y) = map nat y"
    proof (intro nth_equalityI)
      show "length (map argmax (map ?row y)) = length (map nat y)" by simp
    next
      fix i assume "i < length (map argmax (map ?row y))"
      then have i: "i < length y" by simp
      have "first_max (?row (y ! i)) (nat (y ! i))"
        using idx[OF i] lt[OF i] by (simp add: first_max_onehot)
      then have "argmax (?row (y ! i)) = nat (y ! i)" by (rule argmax_eqI)
      then show "map argmax (map ?row y) ! i = map nat y ! i" using i by simp
    qed
    then show ?thesis using assms(1) by (simp add: argmax_axis1_def)
  qed
  ultimately show ?thesis by (intro exI[of _ ?Y]) simp
qed

text \<open>
  Claim C3. For a positive class count \<open>m\<close> and labels that all lie in \<open>[0, m)\<close>, the encoder
  returns an array of shape \<open>(n, m)\<close> whose row \<open>i\<close> is \<open>+1\<close> at column \<open>y[i]\<close> and \<open>-1\<close> at every
  other column, so each row holds exactly one \<open>+1\<close>; the argmax of each row is the label.
\<close>

theorem encode_one_vs_all_correct:
  assumes "0 < m" and "\<forall>i<length y. 0 \<le> y ! i \<and> y ! i < m"
  shows "\<exists>Y. make_one_versus_all_labels y m = Inr Y \<and> wf_array Y \<and>
           nrows Y = length y \<and> ncols Y = nat m \<and>
           (\<forall>i<length y. \<forall>j<nat m. entry Y i j = (if int j = y ! i then 1 else - 1)) \<and>
           (\<forall>i<length y. count_list (elems Y ! i) 1 = 1) \<and>
           argmax_axis1 Y = Inr (map nat y)"
  using assms by (rule encode_in_range)

theorem encode_one_vs_all_correct_witness:
  "make_one_versus_all_labels [0, 2, 1] 3 = Inr (Array2 3 3 [[1, - 1, - 1], [- 1, - 1, 1], [- 1, 1, - 1]]) \<and>
   argmax_axis1 (Array2 3 3 [[1, - 1, - 1], [- 1, - 1, 1], [- 1, 1, - 1::int]]) = Inr [0, 2, 1]"
proof -
  have h: "\<forall>i<length [0, 2, 1::int]. 0 \<le> [0, 2, 1::int] ! i \<and> [0, 2, 1::int] ! i < 3"
    by (simp add: nth_Cons' )
  obtain Y where Y: "make_one_versus_all_labels [0, 2, 1] 3 = Inr Y"
    "argmax_axis1 Y = Inr (map nat [0, 2, 1])"
    using encode_one_vs_all_correct[of 3 "[0, 2, 1]", OF _ h] by auto
  have "make_one_versus_all_labels [0, 2, 1] 3 = Inr (Array2 3 3 [[1, - 1, - 1], [- 1, - 1, 1], [- 1, 1, - 1]])"
    by (simp add: make_one_versus_all_labels_def py_index_def upt_rec numeral_3_eq_3 )
  then show ?thesis using Y by simp
qed

text \<open>
  The label \<open>2\<close> with two classes raises IndexError, and the label \<open>-1\<close> yields the row
  \<open>[-1, +1]\<close>: neither gives a row of \<open>-1\<close> only.
\<close>

theorem encode_invalid_label_counterexample:
  "make_one_versus_all_labels [2] 2 = Inl IndexError \<and>
   make_one_versus_all_labels [- 1] 2 = Inr (Array2 1 2 [[- 1, 1]])"
  by (simp add: make_one_versus_all_labels_def py_index_def numeral_2_eq_2)

text \<open>
  Claim C4, as the code has it. The encoder validates nothing itself, but the indexed write
  does: a label below \<open>-m\<close> or at least \<open>m\<close> raises IndexError and no array is returned; a label
  in \<open>[-m, 0)\<close> is accepted and puts the \<open>+1\<close> at column \<open>m + label\<close>. Every row of every
  returned array holds exactly one \<open>+1\<close>: a row with no \<open>+1\<close> is never produced.
\<close>

theorem encode_invalid_label:
  assumes "0 \<le> m"
  shows "(i < length y \<and> (y ! i < - m \<or> m \<le> y ! i) \<longrightarrow> make_one_versus_all_labels y m = Inl IndexError) \<and>
         (make_one_versus_all_labels y m = Inr Y \<and> i < length y \<and> y ! i < 0 \<longrightarrow>
            entry Y i (nat (m + y ! i)) = 1) \<and>
         (make_one_versus_all_labels y m = Inr Y \<longrightarrow> list_all (\<lambda>r. count_list r 1 = 1) (elems Y))"
proof (intro conjI impI)
  assume "i < length y \<and> (y ! i < - m \<or> m \<le> y ! i)"
  then have "i < length y" "py_index (nat m) (y ! i) = None"
    using assms by (auto simp: py_index_def)
  then show "make_one_versus_all_labels y m = Inl IndexError"
    using assms encode_error by blast
next
  have valid: "\<forall>i<length y. py_index (nat m) (y ! i) \<noteq> None" if "make_one_versus_all_labels y m = Inr Y"
  proof (rule ccontr)
    assume "\<not> ?thesis"
    then obtain i where "i < length y" "py_index (nat m) (y ! i) = None" by auto
    then have "make_one_versus_all_labels y m = Inl IndexError" using assms encode_error by blast
    with that show False by simp
  qed
  have Yeq: "Y = Array2 (length y) (nat m) (map (\<lambda>k. (replicate (nat m) (- 1))[the (py_index (nat m) k) := 1]) y)"
    if "make_one_versus_all_labels y m = Inr Y"
    using encode_rows[OF assms valid[OF that]] that by simp
  {
    assume a: "make_one_versus_all_labels y m = Inr Y \<and> i < length y \<and> y ! i < 0"
    then have v: "py_index (nat m) (y ! i) \<noteq> None" using valid by blast
    then have "py_index (nat m) (y ! i) = Some (nat (m + y ! i))" "nat (m + y ! i) < nat m"
      using a assms by (auto simp: py_index_def split: if_splits)
    then show "entry Y i (nat (m + y ! i)) = 1"
      using a Yeq by (simp add: entry_def)
  }
  {
    assume a: "make_one_versus_all_labels y m = Inr Y"
    have "count_list ((replicate (nat m) (- 1::int))[the (py_index (nat m) k) := 1]) 1 = 1" if "k \<in> set y" for k
    proof -
      from that obtain i where "i < length y" "y ! i = k" by (auto simp: in_set_conv_nth)
      then have "py_index (nat m) k \<noteq> None" using valid[OF a] by blast
      then have "the (py_index (nat m) k) < nat m"
        by (auto simp: py_index_def split: if_splits)
      then show ?thesis by (rule count_onehot)
    qed
    then show "list_all (\<lambda>r. count_list r 1 = 1) (elems Y)"
      using Yeq[OF a] by (simp add: list_all_iff)
  }
qed

theorem encode_invalid_label_witness:
  "make_one_versus_all_labels [0, 5] 2 = Inl IndexError \<and>
   entry (Array2 2 3 [[1, - 1, - 1], [- 1, - 1, 1::int]]) 1 2 = 1"
proof -
  have a: "make_one_versus_all_labels [0, 5] 2 = Inl IndexError"
    using encode_invalid_label[of 2 1 "[0, 5]"] by simp
  have "make_one_versus_all_labels [0, - 1] 3 = Inr (Array2 2 3 [[1, - 1, - 1], [- 1, - 1, 1]])"
    by (simp add: make_one_versus_all_labels_def py_index_def upt_rec numeral_3_eq_3)
  then have "entry (Array2 2 3 [[1, - 1, - 1], [- 1, - 1, 1::int]]) 1 2 = 1"
    using encode_invalid_label[of 3 1 "[0, - 1]" "Array2 2 3 [[1, - 1, - 1], [- 1, - 1, 1]]"] by simp
  with a show ?thesis by simp
qed


subsection \<open>Batcher\<close>

declare range_step.simps [simp del]

lemma range_step_concat:
  "0 < n \<Longrightarrow> concat (map (\<lambda>ndx. take (min (ndx + n) (length xs) - ndx) (drop ndx xs))
        (range_step a (length xs) n)) = drop a xs"
proof (induction a "length xs" n rule: range_step.induct)
  case (1 ndx n)
  show ?case
  proof (cases "length xs \<le> ndx")
    case True
    then show ?thesis by (subst range_step.simps) simp
  next
    case False
    have "take (min (ndx + n) (length xs) - ndx) (drop ndx xs) = take n (drop ndx xs)"
      by (cases "ndx + n \<le> length xs") (simp_all add: min_def)
    moreover have "take n (drop ndx xs) @ drop (ndx + n) xs = drop ndx xs"
      by (metis append_take_drop_id drop_drop add.commute)
    ultimately show ?thesis
      using False 1 by (subst range_step.simps) simp
  qed
qed

lemma range_step_nth:
  "0 < n \<Longrightarrow> k < length (range_step a l n) \<Longrightarrow>
     range_step a l n ! k = a + k * n \<and> a + k * n < l"
proof (induction a l n arbitrary: k rule: range_step.induct)
  case (1 ndx l n)
  show ?case
  proof (cases "l \<le> ndx")
    case True
    then have "range_step ndx l n = []" by (subst range_step.simps) simp
    with 1(3) show ?thesis by simp
  next
    case False
    then have eq: "range_step ndx l n = ndx # range_step (ndx + n) l n"
      using 1(2) by (subst range_step.simps) simp
    show ?thesis
    proof (cases k)
      case 0
      then show ?thesis using eq False by simp
    next
      case (Suc k')
      then have "k' < length (range_step (ndx + n) l n)" using 1(3) eq by simp
      then have "range_step (ndx + n) l n ! k' = ndx + n + k' * n \<and> ndx + n + k' * n < l"
        using 1(1)[of k'] False 1(2) by simp
      then show ?thesis using eq Suc by (simp add: algebra_simps)
    qed
  qed
qed

lemma minibatch_chunks:
  assumes "0 < bsize"
  shows "minibatch X Y bsize =
     Inr (map (\<lambda>ndx. (slice_rows X ndx (min (ndx + nat bsize) (nrows X)),
                       slice_rows Y ndx (min (ndx + nat bsize) (nrows X))))
            (range_step 0 (nrows X) (nat bsize)))"
  using assms by (simp add: minibatch_def Let_def)

lemma range_step_length:
  "0 < n \<Longrightarrow> length (range_step a l n) = (l - a + n - 1) div n"
proof (induction a l n rule: range_step.induct)
  case (1 ndx l n)
  show ?case
  proof (cases "l \<le> ndx")
    case True
    then have "range_step ndx l n = []" by (subst range_step.simps) simp
    moreover have "(l - ndx + n - 1) div n = 0" using True 1(2) by simp
    ultimately show ?thesis by simp
  next
    case False
    define q where "q = l - ndx"
    have qpos: "0 < q" using False by (simp add: q_def)
    have eq: "range_step ndx l n = ndx # range_step (ndx + n) l n"
      using False 1(2) by (subst range_step.simps) simp
    have "length (range_step (ndx + n) l n) = (l - (ndx + n) + n - 1) div n"
      using 1(1) False 1(2) by simp
    also have "l - (ndx + n) = q - n" by (simp add: q_def)
    finally have ih: "length (range_step (ndx + n) l n) = (q - n + n - 1) div n" .
    have A: "(q - n + n - 1) div n = (q - 1) div n"
    proof (cases "n \<le> q")
      case True
      then have "q - n + n - 1 = q - 1" by simp
      then show ?thesis by (simp only:)
    next
      case False
      then have "q - n + n - 1 = n - 1" and small: "q - 1 < n" by simp_all
      then have "(q - n + n - 1) div n = (n - 1) div n" by (simp only:)
      also have "\<dots> = 0" using 1(2) by simp
      also have "0 = (q - 1) div n" using small by simp
      finally show ?thesis .
    qed
    have e: "q + n - 1 = (q - 1) + n" using qpos by simp
    have "(q - 1 + n) div n = (q - 1) div n + 1" using 1(2) by (simp add: div_add_self2)
    then have d: "(q + n - 1) div n = Suc ((q - 1) div n)" by (simp only: e Suc_eq_plus1)
    have "length (range_step ndx l n) = Suc (length (range_step (ndx + n) l n))"
      by (simp only: eq list.size(4) Suc_eq_plus1)
    also have "\<dots> = Suc ((q - 1) div n)" by (simp only: ih A)
    also have "\<dots> = (q + n - 1) div n" by (simp only: d)
    finally show ?thesis by (simp only: q_def)
  qed
qed

lemma nrows_slice: "nrows (slice_rows A a b) = min (b - a) (length (elems A) - a)"
  by (simp add: slice_rows_def Let_def)

lemma elems_slice: "elems (slice_rows A a b) = take (b - a) (drop a (elems A))"
  by (simp add: slice_rows_def Let_def)

text \<open>
  Claim C6. For a positive batch size and arrays \<open>X\<close>, \<open>Y\<close> with the same number of rows, the
  chunks the batcher yields, put end to end in the order yielded, are the rows of \<open>X\<close> and of
  \<open>Y\<close> in their original order; each chunk keeps the column counts, and every chunk but the
  last holds exactly \<open>size\<close> rows. There are \<open>\<lceil>n / size\<rceil>\<close> chunks; chunk \<open>k\<close> holds the rows from
  \<open>k \<cdot> size\<close> on, at most \<open>size\<close> of them and at least one, the same number from \<open>X\<close> and from \<open>Y\<close>.
\<close>

theorem minibatch_partition:
  assumes "0 < bsize" "wf_array X" "wf_array Y" "nrows Y = nrows X"
  shows "\<exists>chunks. minibatch X Y bsize = Inr chunks \<and>
           concat (map (\<lambda>c. elems (fst c)) chunks) = elems X \<and>
           concat (map (\<lambda>c. elems (snd c)) chunks) = elems Y \<and>
           list_all (\<lambda>c. wf_array (fst c) \<and> wf_array (snd c) \<and>
                          ncols (fst c) = ncols X \<and> ncols (snd c) = ncols Y) chunks \<and>
           (\<forall>k. Suc k < length chunks \<longrightarrow>
                  nrows (fst (chunks ! k)) = nat bsize \<and> nrows (snd (chunks ! k)) = nat bsize) \<and>
           length chunks = (nrows X + nat bsize - 1) div nat bsize \<and>
           (\<forall>k<length chunks.
              0 < nrows (fst (chunks ! k)) \<and> nrows (fst (chunks ! k)) \<le> nat bsize \<and>
              nrows (snd (chunks ! k)) = nrows (fst (chunks ! k)) \<and>
              elems (fst (chunks ! k)) = take (nat bsize) (drop (k * nat bsize) (elems X)) \<and>
              elems (snd (chunks ! k)) = take (nat bsize) (drop (k * nat bsize) (elems Y)))"
proof -
  define n where "n = nat bsize"
  define l where "l = nrows X"
  define idx where "idx = range_step 0 l n"
  define f where "f = (\<lambda>ndx. (slice_rows X ndx (min (ndx + n) l), slice_rows Y ndx (min (ndx + n) l)))"
  define cs where "cs = map f idx"
  have n: "0 < n" using assms(1) by (simp add: n_def)
  have lx: "length (elems X) = l" and ly: "length (elems Y) = l"
    using assms by (simp_all add: wf_array_def l_def)
  have mb: "minibatch X Y bsize = Inr cs"
    unfolding cs_def f_def idx_def n_def l_def using assms(1) by (rule minibatch_chunks)
  have lcs: "length cs = length idx" by (simp add: cs_def)
  have fst_cs: "fst (cs ! k) = slice_rows X (k * n) (min (k * n + n) l)"
    and snd_cs: "snd (cs ! k) = slice_rows Y (k * n) (min (k * n + n) l)"
    and klt: "k * n < l" if "k < length cs" for k
  proof -
    from that have k: "k < length idx" by (simp add: lcs)
    from range_step_nth[OF n, of k 0 l] k have cur: "idx ! k = k * n" and lt: "k * n < l"
      by (simp_all add: idx_def)
    show "fst (cs ! k) = slice_rows X (k * n) (min (k * n + n) l)"
      "snd (cs ! k) = slice_rows Y (k * n) (min (k * n + n) l)"
      using k cur by (simp_all add: cs_def f_def)
    show "k * n < l" by (rule lt)
  qed
  have "concat (map (\<lambda>c. elems (fst c)) cs) =
        concat (map (\<lambda>ndx. take (min (ndx + n) (length (elems X)) - ndx) (drop ndx (elems X)))
           (range_step 0 (length (elems X)) n))"
    by (simp add: cs_def f_def idx_def slice_rows_def Let_def comp_def lx)
  also have "\<dots> = elems X" using range_step_concat[OF n, of "elems X" 0] by simp
  finally have cx: "concat (map (\<lambda>c. elems (fst c)) cs) = elems X" .
  have "concat (map (\<lambda>c. elems (snd c)) cs) =
        concat (map (\<lambda>ndx. take (min (ndx + n) (length (elems Y)) - ndx) (drop ndx (elems Y)))
           (range_step 0 (length (elems Y)) n))"
    by (simp add: cs_def f_def idx_def slice_rows_def Let_def comp_def ly)
  also have "\<dots> = elems Y" using range_step_concat[OF n, of "elems Y" 0] by simp
  finally have cy: "concat (map (\<lambda>c. elems (snd c)) cs) = elems Y" .
  have wf_slice: "wf_array (slice_rows A a b) \<and> ncols (slice_rows A a b) = ncols A"
    if "wf_array A" for A :: "'c array2" and a b
    using that by (auto simp: wf_array_def slice_rows_def Let_def list_all_iff
        dest: in_set_takeD in_set_dropD)
  have shapes: "list_all (\<lambda>c. wf_array (fst c) \<and> wf_array (snd c) \<and>
                          ncols (fst c) = ncols X \<and> ncols (snd c) = ncols Y) cs"
    using wf_slice[OF assms(2)] wf_slice[OF assms(3)]
    by (simp add: list_all_iff cs_def f_def)
  have len: "length cs = (nrows X + nat bsize - 1) div nat bsize"
    using range_step_length[OF n, of 0 l] by (simp add: lcs idx_def n_def l_def)
  have ar: "min (min (a + b) c - a) (c - a) = min b (c - a)" for a b c :: nat
    by arith
  have rows: "nrows (fst (cs ! k)) = min n (l - k * n)" "nrows (snd (cs ! k)) = min n (l - k * n)"
    if "k < length cs" for k
  proof -
    have "nrows (fst (cs ! k)) = min (min (k * n + n) l - k * n) (l - k * n)"
      by (simp only: fst_cs[OF that] nrows_slice lx)
    then show "nrows (fst (cs ! k)) = min n (l - k * n)" by (simp only: ar)
    have "nrows (snd (cs ! k)) = min (min (k * n + n) l - k * n) (l - k * n)"
      by (simp only: snd_cs[OF that] nrows_slice ly)
    then show "nrows (snd (cs ! k)) = min n (l - k * n)" by (simp only: ar)
  qed
  have tk: "take (min (k * n + n) l - k * n) (drop (k * n) zs) = take n (drop (k * n) zs)"
    if "length zs = l" for zs :: "'z list" and k
    using that by (cases "k * n + n \<le> l") (simp_all add: min_def)
  have el: "elems (fst (cs ! k)) = take n (drop (k * n) (elems X))"
    "elems (snd (cs ! k)) = take n (drop (k * n) (elems Y))" if "k < length cs" for k
  proof -
    show "elems (fst (cs ! k)) = take n (drop (k * n) (elems X))"
      by (simp only: fst_cs[OF that] elems_slice tk[OF lx])
    show "elems (snd (cs ! k)) = take n (drop (k * n) (elems Y))"
      by (simp only: snd_cs[OF that] elems_slice tk[OF ly])
  qed
  have sizes: "\<forall>k. Suc k < length cs \<longrightarrow>
      nrows (fst (cs ! k)) = nat bsize \<and> nrows (snd (cs ! k)) = nat bsize"
  proof (intro allI impI)
    fix k assume sk: "Suc k < length cs"
    then have k: "k < length cs" by simp
    have "k * n + n < l" using klt[OF sk] by simp
    then have "min n (l - k * n) = n" by simp
    then show "nrows (fst (cs ! k)) = nat bsize \<and> nrows (snd (cs ! k)) = nat bsize"
      using rows[OF k] by (simp add: n_def)
  qed
  have each: "\<forall>k<length cs.
      0 < nrows (fst (cs ! k)) \<and> nrows (fst (cs ! k)) \<le> nat bsize \<and>
      nrows (snd (cs ! k)) = nrows (fst (cs ! k)) \<and>
      elems (fst (cs ! k)) = take (nat bsize) (drop (k * nat bsize) (elems X)) \<and>
      elems (snd (cs ! k)) = take (nat bsize) (drop (k * nat bsize) (elems Y))"
  proof (intro allI impI)
    fix k assume k: "k < length cs"
    have "0 < min n (l - k * n)" "min n (l - k * n) \<le> n" using n klt[OF k] by simp_all
    then have "0 < nrows (fst (cs ! k))" "nrows (fst (cs ! k)) \<le> n"
      "nrows (snd (cs ! k)) = nrows (fst (cs ! k))"
      using rows[OF k] by simp_all
    then show "0 < nrows (fst (cs ! k)) \<and> nrows (fst (cs ! k)) \<le> nat bsize \<and>
      nrows (snd (cs ! k)) = nrows (fst (cs ! k)) \<and>
      elems (fst (cs ! k)) = take (nat bsize) (drop (k * nat bsize) (elems X)) \<and>
      elems (snd (cs ! k)) = take (nat bsize) (drop (k * nat bsize) (elems Y))"
      using el[OF k] unfolding n_def by (intro conjI)
  qed
  show ?thesis
  proof (intro exI[of _ cs] conjI)
    show "minibatch X Y bsize = Inr cs" by (rule mb)
    show "concat (map (\<lambda>c. elems (fst c)) cs) = elems X" by (rule cx)
    show "concat (map (\<lambda>c. elems (snd c)) cs) = elems Y" by (rule cy)
    show "list_all (\<lambda>c. wf_array (fst c) \<and> wf_array (snd c) \<and>
                          ncols (fst c) = ncols X \<and> ncols (snd c) = ncols Y) cs" by (rule shapes)
    show "\<forall>k. Suc k < length cs \<longrightarrow>
      nrows (fst (cs ! k)) = nat bsize \<and> nrows (snd (cs ! k)) = nat bsize" by (rule sizes)
    show "length cs = (nrows X + nat bsize - 1) div nat bsize" by (rule len)
    show "\<forall>k<length cs.
      0 < nrows (fst (cs ! k)) \<and> nrows (fst (cs ! k)) \<le> nat bsize \<and>
      nrows (snd (cs ! k)) = nrows (fst (cs ! k)) \<and>
      elems (fst (cs ! k)) = take (nat bsize) (drop (k * nat bsize) (elems X)) \<and>
      elems (snd (cs ! k)) = take (nat bsize) (drop (k * nat bsize) (elems Y))" by (rule each)
  qed
qed

theorem minibatch_partition_witness:
  "\<exists>chunks. minibatch (Array2 3 1 [[1], [2], [3::int]]) (Array2 3 1 [[4], [5], [6::int]]) 2 = Inr chunks \<and>
      concat (map (\<lambda>c. elems (fst c)) chunks) = [[1], [2], [3]] \<and>
      concat (map (\<lambda>c. elems (snd c)) chunks) = [[4], [5], [6]] \<and>
      length chunks = 2 \<and>
      elems (fst (chunks ! 0)) = [[1], [2]] \<and> elems (snd (chunks ! 0)) = [[4], [5]] \<and>
      elems (fst (chunks ! 1)) = [[3]] \<and> elems (snd (chunks ! 1)) = [[6]] \<and>
      nrows (fst (chunks ! 0)) = 2 \<and> 0 < nrows (fst (chunks ! 1)) \<and> nrows (fst (chunks ! 1)) \<le> 2"
proof -
  let ?X = "Array2 3 1 [[1], [2], [3::int]]"
  let ?Y = "Array2 3 1 [[4], [5], [6::int]]"
  have wf: "wf_array ?X" "wf_array ?Y" by (simp_all add: wf_array_def)
  have b: "(0::int) < 2" and r: "nrows ?Y = nrows ?X" by simp_all
  from minibatch_partition[OF b wf r] obtain chunks where big:
    "minibatch ?X ?Y 2 = Inr chunks \<and>
     concat (map (\<lambda>c. elems (fst c)) chunks) = elems ?X \<and>
     concat (map (\<lambda>c. elems (snd c)) chunks) = elems ?Y \<and>
     list_all (\<lambda>c. wf_array (fst c) \<and> wf_array (snd c) \<and>
                    ncols (fst c) = ncols ?X \<and> ncols (snd c) = ncols ?Y) chunks \<and>
     (\<forall>k. Suc k < length chunks \<longrightarrow>
            nrows (fst (chunks ! k)) = nat 2 \<and> nrows (snd (chunks ! k)) = nat 2) \<and>
     length chunks = (nrows ?X + nat 2 - 1) div nat 2 \<and>
     (\<forall>k<length chunks.
        0 < nrows (fst (chunks ! k)) \<and> nrows (fst (chunks ! k)) \<le> nat 2 \<and>
        nrows (snd (chunks ! k)) = nrows (fst (chunks ! k)) \<and>
        elems (fst (chunks ! k)) = take (nat 2) (drop (k * nat 2) (elems ?X)) \<and>
        elems (snd (chunks ! k)) = take (nat 2) (drop (k * nat 2) (elems ?Y)))" ..
  note c1 = big[THEN conjunct1]
  note c2 = big[THEN conjunct2, THEN conjunct1]
  note c3 = big[THEN conjunct2, THEN conjunct2, THEN conjunct1]
  note c5 = big[THEN conjunct2, THEN conjunct2, THEN conjunct2, THEN conjunct2, THEN conjunct1]
  note c6 = big[THEN conjunct2, THEN conjunct2, THEN conjunct2, THEN conjunct2, THEN conjunct2,
      THEN conjunct1]
  note c7 = big[THEN conjunct2, THEN conjunct2, THEN conjunct2, THEN conjunct2, THEN conjunct2,
      THEN conjunct2]
  have "(nrows ?X + nat 2 - 1) div nat 2 = 2" by simp
  then have l: "length chunks = 2" using c6 by simp
  have k0: "(0::nat) < length chunks" and k1: "(1::nat) < length chunks"
    and k01: "Suc 0 < length chunks" using l by simp_all
  have s0: "nrows (fst (chunks ! 0)) = 2" using c5[rule_format, OF k01] by simp
  have e0: "elems (fst (chunks ! 0)) = [[1], [2]]" "elems (snd (chunks ! 0)) = [[4], [5]]"
    using c7[rule_format, OF k0] by simp_all
  have e1: "elems (fst (chunks ! 1)) = [[3]]" "elems (snd (chunks ! 1)) = [[6]]"
    "0 < nrows (fst (chunks ! 1))" "nrows (fst (chunks ! 1)) \<le> 2"
    using c7[rule_format, OF k1] by simp_all
  have x: "concat (map (\<lambda>c. elems (fst c)) chunks) = [[1], [2], [3]]" using c2 by simp
  have y: "concat (map (\<lambda>c. elems (snd c)) chunks) = [[4], [5], [6]]" using c3 by simp
  show ?thesis
    by (rule exI[of _ chunks]) (intro conjI c1 x y l e0 e1 s0)
qed


subsection \<open>Shapes and entries of the array operations\<close>

lemma has_shapeD:
  "has_shape A r c \<Longrightarrow> length (elems A) = r \<and> nrows A = r \<and> ncols A = c \<and>
     (\<forall>i<r. length (elems A ! i) = c)"
  by (auto simp: has_shape_def wf_array_def list_all_length)

lemma has_shapeI:
  "nrows A = r \<Longrightarrow> ncols A = c \<Longrightarrow> length (elems A) = r \<Longrightarrow>
     (\<And>i. i < r \<Longrightarrow> length (elems A ! i) = c) \<Longrightarrow> has_shape A r c"
  by (auto simp: has_shape_def wf_array_def list_all_length)

lemma has_shape_wf: "wf_array A \<Longrightarrow> has_shape A (nrows A) (ncols A)"
  by (simp add: has_shape_def)

lemma stretch_id: "length xs = n \<Longrightarrow> stretch n xs = xs"
  by (simp add: stretch_def)

lemma broadcast_to_id: "has_shape A r c \<Longrightarrow> broadcast_to r c A = elems A"
proof -
  assume h: "has_shape A r c"
  have "map (stretch c) (elems A) = elems A"
    using has_shapeD[OF h] by (intro nth_equalityI) (auto simp: stretch_id)
  then show ?thesis using has_shapeD[OF h] by (simp add: broadcast_to_def stretch_id)
qed

lemma broadcast_dim_same: "broadcast_dim a a = Some a"
  by (simp add: broadcast_dim_def)

lemma elementwise_same_shape:
  assumes "has_shape A r c" "has_shape B r c"
  shows "elementwise f A B = Inr (Array2 r c (map2 (map2 f) (elems A) (elems B)))"
  using assms has_shapeD[OF assms(1)] has_shapeD[OF assms(2)]
  by (simp add: elementwise_def broadcast_dim_same broadcast_to_id)

lemma map2_shape:
  assumes "has_shape A r c" "has_shape B r c"
  shows "has_shape (Array2 r c (map2 (map2 f) (elems A) (elems B))) r c"
  using has_shapeD[OF assms(1)] has_shapeD[OF assms(2)]
  by (intro has_shapeI) auto

lemma map2_entry:
  assumes "has_shape A r c" "has_shape B r c" "i < r" "j < c"
  shows "entry (Array2 r c (map2 (map2 f) (elems A) (elems B))) i j = f (entry A i j) (entry B i j)"
  using has_shapeD[OF assms(1)] has_shapeD[OF assms(2)] assms(3,4)
  by (simp add: entry_def)

lemma elementwise_ok:
  assumes "has_shape A r c" "has_shape B r c"
  shows "\<exists>R. elementwise f A B = Inr R \<and> has_shape R r c \<and>
           (\<forall>i<r. \<forall>j<c. entry R i j = f (entry A i j) (entry B i j))"
  using elementwise_same_shape[OF assms, where f = f] map2_shape[OF assms, where f = f]
    map2_entry[OF assms, where f = f]
  by auto

lemma map_array_shape: "has_shape A r c \<Longrightarrow> has_shape (map_array f A) r c"
proof -
  assume h: "has_shape A r c"
  show ?thesis using has_shapeD[OF h] by (intro has_shapeI) (auto simp: map_array_def)
qed

lemma map_array_entry:
  "has_shape A r c \<Longrightarrow> i < r \<Longrightarrow> j < c \<Longrightarrow> entry (map_array f A) i j = f (entry A i j)"
proof -
  assume h: "has_shape A r c" and ij: "i < r" "j < c"
  show ?thesis using has_shapeD[OF h] ij by (simp add: map_array_def entry_def)
qed

lemma transpose_shape: "has_shape A r c \<Longrightarrow> has_shape (transpose_array A) c r"
proof -
  assume h: "has_shape A r c"
  show ?thesis using has_shapeD[OF h]
    by (intro has_shapeI) (auto simp: transpose_array_def columns_def)
qed

lemma transpose_entry:
  "has_shape A r c \<Longrightarrow> i < r \<Longrightarrow> j < c \<Longrightarrow> entry (transpose_array A) j i = entry A i j"
proof -
  assume h: "has_shape A r c" and ij: "i < r" "j < c"
  show ?thesis using has_shapeD[OF h] ij
    by (simp add: transpose_array_def columns_def entry_def)
qed

lemma dot_sum: "length u = length v \<Longrightarrow> dot u v = (\<Sum>k<length u. u ! k * v ! k)"
proof -
  assume l: "length u = length v"
  have "dot u v = (\<Sum>k = 0..<length (map2 (*) u v). map2 (*) u v ! k)"
    unfolding dot_def by (rule sum_list_sum_nth)
  also have "\<dots> = (\<Sum>k = 0..<length u. u ! k * v ! k)"
    using l by (intro sum.cong) auto
  finally show ?thesis by (simp add: lessThan_atLeast0)
qed

lemma matmul_ok:
  assumes "has_shape A r d" "has_shape B d c"
  shows "\<exists>R. matmul A B = Inr R \<and> has_shape R r c \<and>
           (\<forall>i<r. \<forall>j<c. entry R i j = (\<Sum>k<d. entry A i k * entry B k j))"
proof -
  let ?R = "Array2 r c (map (\<lambda>row. map (dot row) (columns B)) (elems A))"
  note a = has_shapeD[OF assms(1)] and b = has_shapeD[OF assms(2)]
  have m: "matmul A B = Inr ?R" using a b by (simp add: matmul_def)
  have s: "has_shape ?R r c" using a b by (intro has_shapeI) (auto simp: columns_def)
  have e: "entry ?R i j = (\<Sum>k<d. entry A i k * entry B k j)" if "i < r" "j < c" for i j
  proof -
    have col: "columns B ! j = map (\<lambda>row. row ! j) (elems B)"
      using b that by (simp add: columns_def)
    have "entry ?R i j = dot (elems A ! i) (columns B ! j)"
      using a b that by (simp add: entry_def columns_def)
    also have "\<dots> = (\<Sum>k<length (elems A ! i). elems A ! i ! k * (columns B ! j) ! k)"
      using a b that col by (intro dot_sum) simp
    also have "\<dots> = (\<Sum>k<d. entry A i k * entry B k j)"
      using a b that col by (intro sum.cong) (auto simp: entry_def)
    finally show ?thesis .
  qed
  show ?thesis using m s e by blast
qed

lemma matmul_error: "ncols A \<noteq> nrows B \<Longrightarrow> matmul A B = Inl ValueError"
  by (simp add: matmul_def)

subsection \<open>Evaluator: accuracy\<close>

lemma argmax_axis1_ok:
  "0 < ncols A \<Longrightarrow> argmax_axis1 A = Inr (map argmax (elems A))"
  by (simp add: argmax_axis1_def)

lemma count_equal_same_length:
  assumes "length ps = length ts"
  shows "count_equal ps ts = Inr (card {i. i < length ps \<and> ps ! i = ts ! i})"
proof -
  have "length (filter (\<lambda>(p, t). p = t) (zip ps ts)) =
        card {i. i < length (zip ps ts) \<and> (\<lambda>(p, t). p = t) (zip ps ts ! i)}"
    by (rule length_filter_conv_card)
  also have "{i. i < length (zip ps ts) \<and> (\<lambda>(p, t). p = t) (zip ps ts ! i)} =
             {i. i < length ps \<and> ps ! i = ts ! i}"
    using assms by auto
  finally show ?thesis
    using assms by (simp add: count_equal_def broadcast_dim_same stretch_id)
qed

lemma accuracy_value:
  assumes "has_shape Yp n cp" "has_shape Yt n ct" "0 < n" "0 < cp" "0 < ct"
  shows "compute_accuracy Yp Yt =
     Inr (real (card {i. i < n \<and> argmax (elems Yp ! i) = argmax (elems Yt ! i)}) / real n)"
proof -
  note p = has_shapeD[OF assms(1)] and t = has_shapeD[OF assms(2)]
  have a1: "argmax_axis1 Yt = Inr (map argmax (elems Yt))"
    using t assms(5) by (simp add: argmax_axis1_ok)
  have a2: "argmax_axis1 Yp = Inr (map argmax (elems Yp))"
    using p assms(4) by (simp add: argmax_axis1_ok)
  have "count_equal (map argmax (elems Yp)) (map argmax (elems Yt)) =
        Inr (card {i. i < length (map argmax (elems Yp)) \<and>
               map argmax (elems Yp) ! i = map argmax (elems Yt) ! i})"
    using p t by (intro count_equal_same_length) simp
  also have "{i. i < length (map argmax (elems Yp)) \<and>
               map argmax (elems Yp) ! i = map argmax (elems Yt) ! i} =
             {i. i < n \<and> argmax (elems Yp ! i) = argmax (elems Yt ! i)}"
    using p t by auto
  finally show ?thesis
    using a1 a2 t assms(3) by (simp add: compute_accuracy_def)
qed

text \<open>
  Claim C8. \<open>compute_accuracy\<close> decodes each row of both arrays by argmax and returns the
  number of rows whose decoded class ids agree, divided by the number of rows: a value in
  \<open>[0, 1]\<close>. For the one-versus-all encodings of \<open>[0, 1, 1]\<close> and \<open>[0, 1, 0]\<close> with two classes
  it returns \<open>2/3\<close>.
\<close>

theorem accuracy_fraction:
  assumes "has_shape Yp n cp" "has_shape Yt n ct" "0 < n" "0 < cp" "0 < ct"
  shows "compute_accuracy Yp Yt =
           Inr (real (card {i. i < n \<and> argmax (elems Yp ! i) = argmax (elems Yt ! i)}) / real n) \<and>
         (\<exists>a. compute_accuracy Yp Yt = Inr a \<and> 0 \<le> a \<and> a \<le> 1) \<and>
         ebind (make_one_versus_all_labels [0, 1, 1] 2) (\<lambda>Y_pred.
           ebind (make_one_versus_all_labels [0, 1, 0] 2) (\<lambda>Y_true.
             compute_accuracy Y_pred Y_true)) = Inr (2 / 3)"
proof (intro conjI)
  let ?S = "{i. i < n \<and> argmax (elems Yp ! i) = argmax (elems Yt ! i)}"
  show v: "compute_accuracy Yp Yt = Inr (real (card ?S) / real n)"
    using assms by (rule accuracy_value)
  have "?S \<subseteq> {..<n}" by auto
  then have "card ?S \<le> card {..<n}" by (intro card_mono) auto
  then have "real (card ?S) / real n \<le> 1" using assms(3) by simp
  then show "\<exists>a. compute_accuracy Yp Yt = Inr a \<and> 0 \<le> a \<and> a \<le> 1"
    using v by simp
  have e1: "make_one_versus_all_labels [0, 1, 1] 2 = Inr (Array2 3 2 [[1, - 1], [- 1, 1], [- 1, 1]])"
    by (simp add: make_one_versus_all_labels_def py_index_def upt_rec numeral_3_eq_3 numeral_2_eq_2)
  have e2: "make_one_versus_all_labels [0, 1, 0] 2 = Inr (Array2 3 2 [[1, - 1], [- 1, 1], [1, - 1]])"
    by (simp add: make_one_versus_all_labels_def py_index_def upt_rec numeral_3_eq_3 numeral_2_eq_2)
  have "compute_accuracy (Array2 3 2 [[1, - 1], [- 1, 1], [- 1, 1::int]])
          (Array2 3 2 [[1, - 1], [- 1, 1], [1, - 1::int]]) = Inr (2 / 3)"
    by (simp add: compute_accuracy_def argmax_axis1_def argmax_def count_equal_def
        broadcast_dim_def stretch_def)
  then show "ebind (make_one_versus_all_labels [0, 1, 1] 2) (\<lambda>Y_pred.
           ebind (make_one_versus_all_labels [0, 1, 0] 2) (\<lambda>Y_true.
             compute_accuracy Y_pred Y_true)) = Inr (2 / 3)"
    using e1 e2 by simp
qed

theorem accuracy_fraction_witness:
  "\<exists>a. compute_accuracy (Array2 2 2 [[1, - 1], [- 1, 1::int]]) (Array2 2 2 [[1, - 1], [1, - 1::int]]) = Inr a
      \<and> 0 \<le> a \<and> a \<le> 1"
proof -
  have s: "has_shape (Array2 2 2 [[1, - 1], [- 1, 1::int]]) 2 2"
    "has_shape (Array2 2 2 [[1, - 1], [1, - 1::int]]) 2 2"
    by (simp_all add: has_shape_def wf_array_def)
  have pos: "0 < (2::nat)" by simp
  from accuracy_fraction[OF s pos pos pos] show ?thesis by blast
qed

subsection \<open>Evaluator: inference\<close>

lemma get_w_Some: "self_w s = Some W \<Longrightarrow> get_w s = Inr W"
  by (simp add: get_w_def)

lemma get_w_None: "self_w s = None \<Longrightarrow> get_w s = Inl AttributeError"
  by (simp add: get_w_def)

lemma first_max_iff_argmax: "xs \<noteq> [] \<Longrightarrow> first_max xs j \<longleftrightarrow> j = argmax xs"
  using argmax_first_max argmax_eqI by blast

lemma infer_ok:
  assumes "self_w s = Some W" "has_shape X n d" "has_shape W d m" "0 < m"
  shows "\<exists>S P. matmul X W = Inr S \<and> has_shape S n m \<and>
           (\<forall>i<n. \<forall>j<m. entry S i j = (\<Sum>k<d. entry X i k * entry W k j)) \<and>
           infer s X = Inr P \<and> has_shape P n m \<and>
           (\<forall>i<n. \<forall>j<m. entry P i j = (if first_max (elems S ! i) j then 1 else - 1)) \<and>
           make_one_versus_all_labels (map (\<lambda>r. int (argmax r)) (elems S)) (int (ncols S)) = Inr P"
proof -
  obtain S where S: "matmul X W = Inr S" "has_shape S n m"
    "\<forall>i<n. \<forall>j<m. entry S i j = (\<Sum>k<d. entry X i k * entry W k j)"
    using matmul_ok[OF assms(2,3)] by blast
  note sd = has_shapeD[OF S(2)]
  let ?y = "map (\<lambda>r. int (argmax r)) (elems S)"
  have ne: "elems S ! i \<noteq> []" if "i < n" for i
    using sd that assms(4) by auto
  have am: "argmax (elems S ! i) < m" if "i < n" for i
    using argmax_first_max[OF ne[OF that]] sd that by (simp add: first_max_def)
  have rng: "\<forall>i<length ?y. 0 \<le> ?y ! i \<and> ?y ! i < int m"
    using sd am by simp
  have mpos: "0 < int m" using assms(4) by simp
  obtain P where P: "make_one_versus_all_labels ?y (int m) = Inr P" "wf_array P"
    "nrows P = length ?y" "ncols P = nat (int m)"
    "\<forall>i<length ?y. \<forall>j<nat (int m). entry P i j = (if int j = ?y ! i then 1 else - 1)"
    using encode_in_range[OF mpos rng] by blast
  have shP: "has_shape P n m" using P(2,3,4) sd by (simp add: has_shape_def)
  have ent: "\<forall>i<n. \<forall>j<m. entry P i j = (if first_max (elems S ! i) j then 1 else - 1)"
  proof (intro allI impI)
    fix i j assume ij: "i < n" "j < m"
    have "entry P i j = (if int j = ?y ! i then 1 else - 1)" using P(5) ij sd by simp
    also have "int j = ?y ! i \<longleftrightarrow> j = argmax (elems S ! i)" using ij sd by auto
    also have "\<dots> \<longleftrightarrow> first_max (elems S ! i) j"
      using first_max_iff_argmax[OF ne[OF ij(1)]] by simp
    finally show "entry P i j = (if first_max (elems S ! i) j then 1 else - 1)" .
  qed
  have "argmax_axis1 S = Inr (map argmax (elems S))"
    using sd assms(4) by (simp add: argmax_axis1_ok)
  then have inf: "infer s X = Inr P"
    using get_w_Some[OF assms(1)] S(1) P(1) sd by (simp add: infer_def comp_def)
  show ?thesis using S shP ent inf P(1) sd by auto
qed

text \<open>
  Claim C7. With weights \<open>W\<close> of shape \<open>(d, m)\<close>, \<open>m\<close> positive, and \<open>X\<close> of shape \<open>(n, d)\<close>, \<open>infer\<close>
  computes the scores \<open>S = X W\<close> and returns the array of shape \<open>(n, m)\<close> that is \<open>+1\<close> exactly at
  the first column holding the maximum of its row of scores and \<open>-1\<close> elsewhere; it is the
  one-versus-all encoding of the row argmaxes with as many classes as \<open>S\<close> has columns.
\<close>

theorem infer_first_max:
  assumes "self_w s = Some W" "has_shape X n d" "has_shape W d m" "0 < m"
  shows "\<exists>S P. matmul X W = Inr S \<and> has_shape S n m \<and>
           (\<forall>i<n. \<forall>j<m. entry S i j = (\<Sum>k<d. entry X i k * entry W k j)) \<and>
           infer s X = Inr P \<and> has_shape P n m \<and>
           (\<forall>i<n. \<forall>j<m. entry P i j = (if first_max (elems S ! i) j then 1 else - 1)) \<and>
           make_one_versus_all_labels (map (\<lambda>r. int (argmax r)) (elems S)) (int (ncols S)) = Inr P"
  using assms by (rule infer_ok)

theorem infer_first_max_witness:
  "infer (init 1 0 1 1 False \<lparr>self_w := Some (Array2 1 3 [[1, 2, 2]])\<rparr>) (Array2 2 1 [[1], [- 1]])
     = Inr (Array2 2 3 [[- 1, 1, - 1], [1, - 1, - 1]])"
proof -
  let ?s = "init 1 0 1 1 False \<lparr>self_w := Some (Array2 1 3 [[1, 2, 2]])\<rparr>"
  let ?X = "Array2 2 1 [[1], [- 1::real]]"
  let ?W = "Array2 1 3 [[1, 2, 2::real]]"
  have w: "self_w ?s = Some ?W" by (simp add: init_def)
  have x: "has_shape ?X 2 1" by (simp add: has_shape_def wf_array_def)
  have ws: "has_shape ?W 1 3" by (simp add: has_shape_def wf_array_def)
  obtain S P where SP: "matmul ?X ?W = Inr S" "infer ?s ?X = Inr P"
    "make_one_versus_all_labels (map (\<lambda>r. int (argmax r)) (elems S)) (int (ncols S)) = Inr P"
    using infer_first_max[OF w x ws] by auto
  have "matmul ?X ?W = Inr (Array2 2 3 [[1, 2, 2], [- 1, - 2, - 2]])"
    by (simp add: matmul_def columns_def dot_def upt_rec numeral_3_eq_3)
  then have S: "S = Array2 2 3 [[1, 2, 2], [- 1, - 2, - 2]]" using SP(1) by simp
  have "make_one_versus_all_labels (map (\<lambda>r. int (argmax r)) [[1, 2, 2], [- 1, - 2, - 2::real]]) 3
      = Inr (Array2 2 3 [[- 1, 1, - 1], [1, - 1, - 1]])"
    by (simp add: argmax_def make_one_versus_all_labels_def py_index_def upt_rec numeral_3_eq_3 numeral_2_eq_2)
  then show ?thesis using SP(2,3) S by simp
qed

subsection \<open>LossGradientEngine: gradient\<close>

lemma margins_ok:
  assumes "has_shape X n d" "has_shape W d m" "has_shape Y n m"
  shows "\<exists>xw p. matmul X W = Inr xw \<and> elementwise (*) xw Y = Inr p \<and> has_shape p n m \<and>
           (\<forall>i<n. \<forall>j<m. 2 - entry p i j = margin X W Y d i j)"
proof -
  obtain xw where xw: "matmul X W = Inr xw" "has_shape xw n m"
    "\<forall>i<n. \<forall>j<m. entry xw i j = (\<Sum>k<d. entry X i k * entry W k j)"
    using matmul_ok[OF assms(1,2)] by blast
  obtain p where p: "elementwise (*) xw Y = Inr p" "has_shape p n m"
    "\<forall>i<n. \<forall>j<m. entry p i j = entry xw i j * entry Y i j"
    using elementwise_ok[OF xw(2) assms(3), where f = "(*)"] by blast
  have "\<forall>i<n. \<forall>j<m. 2 - entry p i j = margin X W Y d i j"
    using p(3) xw(3) by (simp add: margin_def)
  then show ?thesis using xw(1) p(1,2) by blast
qed

lemma gradient_ok:
  assumes "self_w s = Some W" "has_shape X n d" "has_shape W d m" "has_shape Y n m" "0 < n"
  shows "\<exists>G. compute_gradient s X Y = Inr G \<and> has_shape G d m \<and>
           (\<forall>k<d. \<forall>j<m. entry G k j =
              - 2 / real n * (\<Sum>i<n. entry X i k *
                  (entry Y i j * max 0 (margin X W Y d i j) *
                     (if 0 < margin X W Y d i j then 1 else 0)))
              + self_C s * entry W k j)"
proof -
  obtain xw p where p: "matmul X W = Inr xw" "elementwise (*) xw Y = Inr p" "has_shape p n m"
    "\<forall>i<n. \<forall>j<m. 2 - entry p i j = margin X W Y d i j"
    using margins_ok[OF assms(2,3,4)] by blast
  let ?maxes = "map_array (\<lambda>v. max 0 (2 - v)) p"
  let ?reg = "map_array (\<lambda>v. self_C s * v) W"
  let ?a = "map_array (\<lambda>v. 2 - v) p"
  let ?ones = "map_array (\<lambda>v. if 0 < v then 1 else 0 :: real) ?a"
  have sm: "has_shape ?maxes n m" using p(3) by (rule map_array_shape)
  have em: "\<forall>i<n. \<forall>j<m. entry ?maxes i j = max 0 (margin X W Y d i j)"
    using p(4) by (simp add: map_array_entry[OF p(3)])
  have sa: "has_shape ?a n m" using p(3) by (rule map_array_shape)
  have so: "has_shape ?ones n m" using sa by (rule map_array_shape)
  have eo: "\<forall>i<n. \<forall>j<m. entry ?ones i j = (if 0 < margin X W Y d i j then 1 else 0)"
    using p(4) by (simp add: map_array_entry[OF sa] map_array_entry[OF p(3)])
  have sr: "has_shape ?reg d m" using assms(3) by (rule map_array_shape)
  have er: "\<forall>k<d. \<forall>j<m. entry ?reg k j = self_C s * entry W k j"
    by (simp add: map_array_entry[OF assms(3)])
  obtain ym where ym: "elementwise (*) Y ?maxes = Inr ym" "has_shape ym n m"
    "\<forall>i<n. \<forall>j<m. entry ym i j = entry Y i j * entry ?maxes i j"
    using elementwise_ok[OF assms(4) sm, where f = "(*)"] by blast
  obtain ymo where ymo: "elementwise (*) ym ?ones = Inr ymo" "has_shape ymo n m"
    "\<forall>i<n. \<forall>j<m. entry ymo i j = entry ym i j * entry ?ones i j"
    using elementwise_ok[OF ym(2) so, where f = "(*)"] by blast
  have st: "has_shape (transpose_array X) d n" using assms(2) by (rule transpose_shape)
  obtain xt where xt: "matmul (transpose_array X) ymo = Inr xt" "has_shape xt d m"
    "\<forall>k<d. \<forall>j<m. entry xt k j = (\<Sum>i<n. entry (transpose_array X) k i * entry ymo i j)"
    using matmul_ok[OF st ymo(2)] by blast
  let ?lg = "map_array (\<lambda>v. - 2 / real n * v) xt"
  have sl: "has_shape ?lg d m" using xt(2) by (rule map_array_shape)
  obtain G where G: "elementwise (+) ?lg ?reg = Inr G" "has_shape G d m"
    "\<forall>k<d. \<forall>j<m. entry G k j = entry ?lg k j + entry ?reg k j"
    using elementwise_ok[OF sl sr, where f = "(+)"] by blast
  have nx: "nrows X = n" using has_shapeD[OF assms(2)] by simp
  have n0: "(n = 0) = False" using assms(5) by simp
  have cg: "compute_gradient s X Y = Inr G"
    unfolding compute_gradient_def Let_def
    by (simp only: get_w_Some[OF assms(1)] ebind_Inr p(1,2) ym(1) ymo(1) xt(1) G(1) nx n0 if_False)
  have eg: "entry G k j =
              - 2 / real n * (\<Sum>i<n. entry X i k *
                  (entry Y i j * max 0 (margin X W Y d i j) *
                     (if 0 < margin X W Y d i j then 1 else 0)))
              + self_C s * entry W k j" if kj: "k < d" "j < m" for k j
  proof -
    have "entry xt k j = (\<Sum>i<n. entry (transpose_array X) k i * entry ymo i j)"
      using xt(3) kj by simp
    also have "\<dots> = (\<Sum>i<n. entry X i k *
                  (entry Y i j * max 0 (margin X W Y d i j) *
                     (if 0 < margin X W Y d i j then 1 else 0)))"
    proof (intro sum.cong refl)
      fix i assume "i \<in> {..<n}"
      then have i: "i < n" by simp
      have "entry (transpose_array X) k i = entry X i k"
        using transpose_entry[OF assms(2) i kj(1)] .
      moreover have "entry ymo i j = entry Y i j * max 0 (margin X W Y d i j) *
                     (if 0 < margin X W Y d i j then 1 else 0)"
        using ymo(3) ym(3) em eo i kj(2) by simp
      ultimately show "entry (transpose_array X) k i * entry ymo i j =
           entry X i k * (entry Y i j * max 0 (margin X W Y d i j) *
                     (if 0 < margin X W Y d i j then 1 else 0))" by simp
    qed
    finally have x: "entry xt k j = (\<Sum>i<n. entry X i k *
                  (entry Y i j * max 0 (margin X W Y d i j) *
                     (if 0 < margin X W Y d i j then 1 else 0)))" .
    have "entry G k j = entry ?lg k j + entry ?reg k j" using G(3) kj by simp
    also have "entry ?lg k j = - 2 / real n * entry xt k j"
      using map_array_entry[OF xt(2) kj] .
    also have "entry ?reg k j = self_C s * entry W k j" using er kj by simp
    finally show ?thesis using x by simp
  qed
  show ?thesis using cg G(2) eg by blast
qed

text \<open>
  Claim C2. With weights \<open>W\<close> of shape \<open>(d, m)\<close>, \<open>X\<close> of shape \<open>(n, d)\<close> with \<open>n\<close> positive and \<open>Y\<close> of
  shape \<open>(n, m)\<close>, \<open>compute_gradient\<close> returns an array of shape \<open>(d, m)\<close> whose entry \<open>(k, j)\<close> is
  \<open>-(2/n)\<close> times entry \<open>(k, j)\<close> of \<open>X\<^sup>T (Y \<odot> max(0, margins) \<odot> active)\<close>, plus \<open>C\<close> times
  \<open>W\<close> at \<open>(k, j)\<close>, where \<open>active\<close> is 1 where the margin is positive and 0 elsewhere. It holds
  for every \<open>C\<close>.
\<close>

theorem gradient_formula:
  assumes "self_w s = Some W" "has_shape X n d" "has_shape W d m" "has_shape Y n m" "0 < n"
  shows "\<exists>G. compute_gradient s X Y = Inr G \<and> has_shape G d m \<and>
           (\<forall>k<d. \<forall>j<m. entry G k j =
              - 2 / real n * (\<Sum>i<n. entry X i k *
                  (entry Y i j * max 0 (margin X W Y d i j) *
                     (if 0 < margin X W Y d i j then 1 else 0)))
              + self_C s * entry W k j)"
  using assms by (rule gradient_ok)

theorem gradient_formula_witness:
  "\<exists>G. compute_gradient (init 1 3 1 1 False \<lparr>self_w := Some (Array2 1 2 [[1, 0]])\<rparr>)
          (Array2 1 1 [[1]]) (Array2 1 2 [[1, - 1]]) = Inr G \<and> has_shape G 1 2 \<and>
        entry G 0 0 = 1 \<and> entry G 0 1 = 4"
proof -
  let ?s = "init 1 3 1 1 False \<lparr>self_w := Some (Array2 1 2 [[1, 0]])\<rparr>"
  let ?X = "Array2 1 1 [[1::real]]"
  let ?W = "Array2 1 2 [[1, 0::real]]"
  let ?Y = "Array2 1 2 [[1, - 1::real]]"
  have w: "self_w ?s = Some ?W" by (simp add: init_def)
  have x: "has_shape ?X 1 1" by (simp add: has_shape_def wf_array_def)
  have ws: "has_shape ?W 1 2" by (simp add: has_shape_def wf_array_def)
  have y: "has_shape ?Y 1 2" by (simp add: has_shape_def wf_array_def)
  have c: "self_C ?s = 3" by (simp add: init_def)
  obtain G where G: "compute_gradient ?s ?X ?Y = Inr G" "has_shape G 1 2"
    "\<forall>k<1. \<forall>j<2. entry G k j =
              - 2 / real (1::nat) * (\<Sum>i<1. entry ?X i k *
                  (entry ?Y i j * max 0 (margin ?X ?W ?Y 1 i j) *
                     (if 0 < margin ?X ?W ?Y 1 i j then 1 else 0)))
              + self_C ?s * entry ?W k j"
    using gradient_formula[OF w x ws y] by auto
  have m0: "margin ?X ?W ?Y 1 0 0 = 1" and m1: "margin ?X ?W ?Y 1 0 1 = 2"
    by (simp_all add: margin_def entry_def)
  have "entry G 0 0 = 1" using G(3) m0 c by (simp add: entry_def)
  moreover have "entry G 0 1 = 4" using G(3) m1 c by (simp add: entry_def)
  ultimately show ?thesis using G(1,2) by blast
qed

subsection \<open>LossGradientEngine: loss\<close>

lemma sum_array_entries:
  assumes "has_shape A r c"
  shows "sum_array A = (\<Sum>i<r. \<Sum>j<c. entry A i j)"
proof -
  note a = has_shapeD[OF assms]
  have "sum_array A = (\<Sum>i = 0..<length (map sum_list (elems A)). map sum_list (elems A) ! i)"
    unfolding sum_array_def by (rule sum_list_sum_nth)
  also have "\<dots> = (\<Sum>i = 0..<r. sum_list (elems A ! i))"
    using a by (intro sum.cong) auto
  also have "\<dots> = (\<Sum>i = 0..<r. \<Sum>j = 0..<c. elems A ! i ! j)"
  proof (intro sum.cong refl)
    fix i assume "i \<in> {0..<r}"
    then have "length (elems A ! i) = c" using a by simp
    then show "sum_list (elems A ! i) = (\<Sum>j = 0..<c. elems A ! i ! j)"
      using sum_list_sum_nth[of "elems A ! i"] by simp
  qed
  finally show ?thesis by (simp add: entry_def lessThan_atLeast0)
qed

lemma sum_array_nonneg:
  "(\<And>v. 0 \<le> f v) \<Longrightarrow> 0 \<le> sum_array (map_array f A)"
  unfolding sum_array_def map_array_def
  by (auto intro!: sum_list_nonneg)

lemma spectral_norm_ok:
  "0 < nrows W \<Longrightarrow> 0 < ncols W \<Longrightarrow>
     spectral_norm W = Inr (Sup (apply_norm W ` unit_vectors (ncols W)))"
  by (simp add: spectral_norm_def)

lemma loss_ok:
  assumes "self_w s = Some W" "has_shape X n d" "has_shape W d m" "has_shape Y n m"
    and "0 < n" "0 < d" "0 < m"
  shows "\<exists>nw. spectral_norm W = Inr nw \<and>
           compute_loss s X Y = Inr (hinge_spec X W Y n d m + self_C s / 2 * nw\<^sup>2)"
proof -
  obtain xw p where p: "matmul X W = Inr xw" "elementwise (*) xw Y = Inr p" "has_shape p n m"
    "\<forall>i<n. \<forall>j<m. 2 - entry p i j = margin X W Y d i j"
    using margins_ok[OF assms(2,3,4)] by blast
  let ?sq = "map_array (\<lambda>v. (max 0 (2 - v))\<^sup>2) p"
  have ssq: "has_shape ?sq n m" using p(3) by (rule map_array_shape)
  have "sum_array ?sq = (\<Sum>i<n. \<Sum>j<m. entry ?sq i j)"
    using ssq by (rule sum_array_entries)
  also have "\<dots> = (\<Sum>i<n. \<Sum>j<m. (max 0 (margin X W Y d i j))\<^sup>2)"
    using p(4) by (intro sum.cong refl) (simp add: map_array_entry[OF p(3)])
  finally have h: "1 / real n * sum_array ?sq = hinge_spec X W Y n d m"
    by (simp add: hinge_spec_def)
  note wd = has_shapeD[OF assms(3)]
  obtain nw where nw: "spectral_norm W = Inr nw"
    using spectral_norm_ok[of W] wd assms(6,7) by simp
  have nx: "nrows X = n" using has_shapeD[OF assms(2)] by simp
  have n0: "(n = 0) = False" using assms(5) by simp
  have "compute_loss s X Y = Inr (1 / real n * sum_array ?sq + self_C s / 2 * nw\<^sup>2)"
    unfolding compute_loss_def Let_def
    by (simp only: get_w_Some[OF assms(1)] ebind_Inr p(1,2) nw nx n0 if_False)
  then show ?thesis using nw h by simp
qed

lemma loss_nonneg:
  assumes "0 \<le> self_C s" "compute_loss s X Y = Inr v"
  shows "0 \<le> v"
proof -
  from assms(2) obtain p nw where
    v: "v = 1 / real (nrows X) * sum_array (map_array (\<lambda>v. (max 0 (2 - v))\<^sup>2) p)
           + self_C s / 2 * nw\<^sup>2"
    by (auto simp: compute_loss_def Let_def ebind_def split: if_splits sum.splits)
  have "0 \<le> sum_array (map_array (\<lambda>v. (max 0 (2 - v))\<^sup>2) p)"
    by (rule sum_array_nonneg) simp
  then have "0 \<le> 1 / real (nrows X) * sum_array (map_array (\<lambda>v. (max 0 (2 - v))\<^sup>2) p)"
    by simp
  moreover have "0 \<le> self_C s / 2 * nw\<^sup>2" using assms(1) by simp
  ultimately show ?thesis using v by simp
qed

text \<open>
  Claim C9. For a non-negative regularization strength \<open>C\<close>, every value \<open>compute_loss\<close> returns
  is non-negative; and it does return a value when \<open>X\<close> has at least one row and the shapes of
  \<open>X\<close>, \<open>Y\<close> and the (non-empty) weight matrix fit.
\<close>

theorem loss_nonnegative:
  assumes "0 \<le> self_C s"
  shows "(compute_loss s X Y = Inr v \<longrightarrow> 0 \<le> v) \<and>
         (self_w s = Some W \<and> has_shape X n d \<and> has_shape W d m \<and> has_shape Y n m \<and>
            0 < n \<and> 0 < d \<and> 0 < m \<longrightarrow> (\<exists>v'. compute_loss s X Y = Inr v' \<and> 0 \<le> v'))"
proof (intro conjI impI)
  assume "compute_loss s X Y = Inr v"
  with assms show "0 \<le> v" by (rule loss_nonneg)
next
  assume a: "self_w s = Some W \<and> has_shape X n d \<and> has_shape W d m \<and> has_shape Y n m \<and>
            0 < n \<and> 0 < d \<and> 0 < m"
  then obtain v' where "compute_loss s X Y = Inr v'" using loss_ok[of s W X n d m Y] by blast
  then show "\<exists>v'. compute_loss s X Y = Inr v' \<and> 0 \<le> v'" using loss_nonneg[OF assms] by blast
qed

theorem loss_nonnegative_witness:
  "\<exists>v. compute_loss (init 1 3 1 1 False \<lparr>self_w := Some (Array2 1 2 [[1, 0]])\<rparr>)
          (Array2 1 1 [[1]]) (Array2 1 2 [[1, - 1]]) = Inr v \<and> 0 \<le> v"
proof -
  let ?s = "init 1 3 1 1 False \<lparr>self_w := Some (Array2 1 2 [[1, 0]])\<rparr>"
  let ?X = "Array2 1 1 [[1::real]]"
  let ?W = "Array2 1 2 [[1, 0::real]]"
  let ?Y = "Array2 1 2 [[1, - 1::real]]"
  have c: "0 \<le> self_C ?s" by (simp add: init_def)
  have h: "self_w ?s = Some ?W \<and> has_shape ?X 1 1 \<and> has_shape ?W 1 2 \<and> has_shape ?Y 1 2 \<and>
            (0::nat) < 1 \<and> (0::nat) < 1 \<and> (0::nat) < 2"
    by (simp add: init_def has_shape_def wf_array_def)
  from loss_nonnegative[OF c, of ?X ?Y _ ?W 1 1 2] h show ?thesis by blast
qed

subsection \<open>LossGradientEngine: the regularization term\<close>

lemma unit_vectors_2: "v \<in> unit_vectors 2 \<longleftrightarrow> (\<exists>a b. v = [a, b] \<and> a\<^sup>2 + b\<^sup>2 = 1)"
proof
  assume "v \<in> unit_vectors 2"
  then have l: "length v = 2" and s: "sum_list (map (\<lambda>a. a\<^sup>2) v) = 1"
    by (simp_all add: unit_vectors_def)
  from l obtain a b where "v = [a, b]"
    by (auto simp: numeral_2_eq_2 length_Suc_conv)
  with s show "\<exists>a b. v = [a, b] \<and> a\<^sup>2 + b\<^sup>2 = 1" by simp
next
  assume "\<exists>a b. v = [a, b] \<and> a\<^sup>2 + b\<^sup>2 = 1"
  then show "v \<in> unit_vectors 2" by (auto simp: unit_vectors_def)
qed

lemma spectral_norm_identity2: "spectral_norm (Array2 2 2 [[1, 0], [0, 1]]) = Inr 1"
proof -
  let ?W = "Array2 2 2 [[1, 0], [0, 1::real]]"
  have "apply_norm ?W ` unit_vectors 2 = {1}"
  proof (intro equalityI subsetI)
    fix x assume "x \<in> apply_norm ?W ` unit_vectors 2"
    then obtain a b where "x = apply_norm ?W [a, b]" "a\<^sup>2 + b\<^sup>2 = 1"
      by (auto simp: unit_vectors_2)
    then show "x \<in> {1}" by (simp add: apply_norm_def dot_def)
  next
    fix x :: real assume "x \<in> {1}"
    moreover have "[1, 0] \<in> unit_vectors 2" by (simp add: unit_vectors_2)
    moreover have "apply_norm ?W [1, 0] = 1" by (simp add: apply_norm_def dot_def)
    ultimately show "x \<in> apply_norm ?W ` unit_vectors 2" by (metis imageI singletonD)
  qed
  then show ?thesis by (simp add: spectral_norm_def)
qed

text \<open>
  Claim C1 states the regularization term as \<open>C/2\<close> times the squared Frobenius norm of \<open>W\<close>.
  The code calls \<open>np.linalg.norm(self.w, ord=2)\<close>, which for a matrix is the spectral norm.
  At \<open>W\<close> the identity of size 2, \<open>C = 2\<close>, \<open>X = [[0, 0]]\<close> and \<open>Y = [[1, -1]]\<close> the hinge term is 8
  in both; the code adds \<open>(2/2) \<cdot> 1\<close> and returns 9, the claimed formula adds \<open>(2/2) \<cdot> 2\<close> and
  gives 10.
\<close>

theorem loss_regulariser_divergence:
  "compute_loss (init 1 2 1 1 False \<lparr>self_w := Some (Array2 2 2 [[1, 0], [0, 1]])\<rparr>)
     (Array2 1 2 [[0, 0]]) (Array2 1 2 [[1, - 1]]) = Inr 9 \<and>
   loss_spec (Array2 2 2 [[1, 0], [0, 1]]) 2 (Array2 1 2 [[0, 0]]) (Array2 1 2 [[1, - 1]]) 1 2 2 = 10"
proof -
  let ?W = "Array2 2 2 [[1, 0], [0, 1::real]]"
  let ?s = "init 1 2 1 1 False \<lparr>self_w := Some ?W\<rparr>"
  let ?X = "Array2 1 2 [[0, 0::real]]"
  let ?Y = "Array2 1 2 [[1, - 1::real]]"
  have w: "self_w ?s = Some ?W" by (simp add: init_def)
  have c: "self_C ?s = 2" by (simp add: init_def)
  have x: "has_shape ?X 1 2" by (simp add: has_shape_def wf_array_def)
  have ws: "has_shape ?W 2 2" by (simp add: has_shape_def wf_array_def)
  have y: "has_shape ?Y 1 2" by (simp add: has_shape_def wf_array_def)
  have two: "{..<(2::nat)} = {0, 1}" and one: "{..<(1::nat)} = {0}" by auto
  have mg: "margin (Array2 a b [[0, 0]]) W' Y' 2 0 j = 2" for a b W' Y' j
    unfolding margin_def two by (simp add: entry_def)
  have h: "hinge_spec ?X ?W ?Y 1 2 2 = 8"
    unfolding hinge_spec_def two one by (simp add: mg)
  have f: "frobenius_sq ?W 2 2 = 2"
    unfolding frobenius_sq_def two by (simp add: entry_def)
  obtain nw where "spectral_norm ?W = Inr nw"
    "compute_loss ?s ?X ?Y = Inr (hinge_spec ?X ?W ?Y 1 2 2 + self_C ?s / 2 * nw\<^sup>2)"
    using loss_ok[OF w x ws y] by auto
  then have "compute_loss ?s ?X ?Y = Inr 9"
    using spectral_norm_identity2 h c by simp
  moreover have "loss_spec ?W 2 ?X ?Y 1 2 2 = 10"
    using h f by (simp add: loss_spec_def)
  ultimately show ?thesis by simp
qed

subsection \<open>Trainer: the epoch loop\<close>

lemma ebind_assoc: "ebind (ebind r f) g = ebind r (\<lambda>v. ebind (f v) g)"
  by (cases r) simp_all

lemma ebind_Inr_right: "ebind r Inr = r"
  by (cases r) simp_all

lemma ebind_eq_Inr: "ebind r f = Inr v \<longleftrightarrow> (\<exists>u. r = Inr u \<and> f u = Inr v)"
  by (cases r) simp_all

lemma update_w_frame: "update_w s g = Inr s' \<Longrightarrow> \<exists>W'. s' = s\<lparr>self_w := Some W'\<rparr>"
  by (auto simp: update_w_def ebind_eq_Inr split: if_splits)

lemma train_batches_frame:
  "train_batches s bs = Inr s' \<Longrightarrow> self_w s \<noteq> None \<Longrightarrow> \<exists>W'. s' = s\<lparr>self_w := Some W'\<rparr>"
proof (induction bs arbitrary: s)
  case Nil
  then obtain W where "self_w s = Some W" by auto
  then have "s = s\<lparr>self_w := Some W\<rparr>" by simp
  then show ?case using Nil by auto
next
  case (Cons b bs)
  from Cons.prems(1) obtain g s1 where g: "update_w s g = Inr s1" "train_batches s1 bs = Inr s'"
    by (auto simp: ebind_eq_Inr)
  from update_w_frame[OF g(1)] obtain W1 where s1: "s1 = s\<lparr>self_w := Some W1\<rparr>" by blast
  then have "self_w s1 \<noteq> None" by simp
  from Cons.IH[OF g(2) this] obtain W' where "s' = s1\<lparr>self_w := Some W'\<rparr>" by blast
  then show ?case using s1 by auto
qed

lemma after_epochs_one:
  "after_epochs (Suc 0) s x y =
     ebind (minibatch x y (self_batch_size s)) (\<lambda>batches. train_batches s batches)"
  by simp

lemma after_epochs_front:
  "after_epochs (Suc k) s x y =
     ebind (after_epochs (Suc 0) s x y) (\<lambda>s1. after_epochs k s1 x y)"
proof (induction k)
  case 0
  show ?case by (simp add: ebind_Inr_right)
next
  case (Suc k)
  have "after_epochs (Suc (Suc k)) s x y =
        ebind (after_epochs (Suc k) s x y)
          (\<lambda>s'. ebind (minibatch x y (self_batch_size s')) (\<lambda>batches. train_batches s' batches))"
    by simp
  also have "\<dots> = ebind (after_epochs (Suc 0) s x y) (\<lambda>s1. ebind (after_epochs k s1 x y)
          (\<lambda>s'. ebind (minibatch x y (self_batch_size s')) (\<lambda>batches. train_batches s' batches)))"
    by (simp only: Suc.IH ebind_assoc)
  also have "\<dots> = ebind (after_epochs (Suc 0) s x y) (\<lambda>s1. after_epochs (Suc k) s1 x y)"
    by simp
  finally show ?case .
qed

lemma after_epochs_frame:
  "after_epochs k s x y = Inr s' \<Longrightarrow> self_w s \<noteq> None \<Longrightarrow> \<exists>W'. s' = s\<lparr>self_w := Some W'\<rparr>"
proof (induction k arbitrary: s')
  case 0
  then obtain W where "self_w s = Some W" by auto
  then have "s = s\<lparr>self_w := Some W\<rparr>" by simp
  then show ?case using 0 by auto
next
  case (Suc k)
  from Suc.prems(1) obtain s1 bs where s1: "after_epochs k s x y = Inr s1"
    "train_batches s1 bs = Inr s'"
    by (auto simp: ebind_eq_Inr)
  from Suc.IH[OF s1(1) Suc.prems(2)] obtain W1 where w1: "s1 = s\<lparr>self_w := Some W1\<rparr>" by blast
  then have "self_w s1 \<noteq> None" by simp
  from train_batches_frame[OF s1(2) this] obtain W' where "s' = s1\<lparr>self_w := Some W'\<rparr>" by blast
  then show ?case using w1 by auto
qed

lemma epoch_eq_Inr:
  "epoch s x_train y_train x_test y_test = Inr ((a, b, c, e), s') \<longleftrightarrow>
     after_epochs (Suc 0) s x_train y_train = Inr s' \<and>
     metrics s' x_train y_train = Inr (a, b) \<and> metrics s' x_test y_test = Inr (c, e)"
  by (auto simp: epoch_def metrics_def ebind_eq_Inr)

lemma fit_loop_spec:
  "fit_loop k s xtr ytr xte yte a b c e = Inr ((trl, tra, tel, tea), s') \<Longrightarrow>
     \<exists>trl' tra' tel' tea'. trl = a @ trl' \<and> tra = b @ tra' \<and> tel = c @ tel' \<and> tea = e @ tea' \<and>
        length trl' = k \<and> length tra' = k \<and> length tel' = k \<and> length tea' = k \<and>
        after_epochs k s xtr ytr = Inr s' \<and>
        (\<forall>i<k. \<exists>si. after_epochs (Suc i) s xtr ytr = Inr si \<and>
            metrics si xtr ytr = Inr (trl' ! i, tra' ! i) \<and>
            metrics si xte yte = Inr (tel' ! i, tea' ! i))"
proof (induction k arbitrary: s a b c e)
  case 0
  then show ?case by simp
next
  case (Suc k)
  from Suc.prems obtain m1 m2 m3 m4 s1 where
    ep: "epoch s xtr ytr xte yte = Inr ((m1, m2, m3, m4), s1)" and
    fl: "fit_loop k s1 xtr ytr xte yte (a @ [m1]) (b @ [m2]) (c @ [m3]) (e @ [m4]) =
           Inr ((trl, tra, tel, tea), s')"
    by (auto simp: ebind_eq_Inr)
  from ep have one: "after_epochs (Suc 0) s xtr ytr = Inr s1"
    and mtr: "metrics s1 xtr ytr = Inr (m1, m2)" and mte: "metrics s1 xte yte = Inr (m3, m4)"
    by (simp_all add: epoch_eq_Inr)
  from Suc.IH[OF fl] obtain trl' tra' tel' tea' where
    r: "trl = (a @ [m1]) @ trl'" "tra = (b @ [m2]) @ tra'" "tel = (c @ [m3]) @ tel'" "tea = (e @ [m4]) @ tea'"
      "length trl' = k" "length tra' = k" "length tel' = k" "length tea' = k"
      "after_epochs k s1 xtr ytr = Inr s'"
      "\<forall>i<k. \<exists>si. after_epochs (Suc i) s1 xtr ytr = Inr si \<and>
            metrics si xtr ytr = Inr (trl' ! i, tra' ! i) \<and>
            metrics si xte yte = Inr (tel' ! i, tea' ! i)"
    by blast
  have front: "after_epochs (Suc j) s xtr ytr = after_epochs j s1 xtr ytr" for j
    using after_epochs_front[of j s xtr ytr] one by simp
  have all: "\<forall>i<Suc k. \<exists>si. after_epochs (Suc i) s xtr ytr = Inr si \<and>
            metrics si xtr ytr = Inr ((m1 # trl') ! i, (m2 # tra') ! i) \<and>
            metrics si xte yte = Inr ((m3 # tel') ! i, (m4 # tea') ! i)"
  proof (intro allI impI)
    fix i assume i: "i < Suc k"
    show "\<exists>si. after_epochs (Suc i) s xtr ytr = Inr si \<and>
            metrics si xtr ytr = Inr ((m1 # trl') ! i, (m2 # tra') ! i) \<and>
            metrics si xte yte = Inr ((m3 # tel') ! i, (m4 # tea') ! i)"
    proof (cases i)
      case 0
      then show ?thesis using one mtr mte by simp
    next
      case (Suc j)
      then have "j < k" using i by simp
      then obtain si where "after_epochs (Suc j) s1 xtr ytr = Inr si"
        "metrics si xtr ytr = Inr (trl' ! j, tra' ! j)" "metrics si xte yte = Inr (tel' ! j, tea' ! j)"
        using r(10) by blast
      then show ?thesis using Suc front[of "Suc j"] by simp
    qed
  qed
  have "trl = a @ (m1 # trl')" "tra = b @ (m2 # tra')" "tel = c @ (m3 # tel')" "tea = e @ (m4 # tea')"
    using r(1-4) by simp_all
  moreover have "length (m1 # trl') = Suc k" "length (m2 # tra') = Suc k"
    "length (m3 # tel') = Suc k" "length (m4 # tea') = Suc k"
    using r(5-8) by simp_all
  moreover have "after_epochs (Suc k) s xtr ytr = Inr s'" using front[of k] r(9) by simp
  ultimately show ?case using all by blast
qed

subsection \<open>Trainer: well-formed inputs are trained without an error\<close>

lemma range_step_lt:
  assumes "0 < n" "ndx \<in> set (range_step a l n)"
  shows "ndx < l"
proof -
  from assms(2) obtain k where k: "k < length (range_step a l n)" "range_step a l n ! k = ndx"
    by (auto simp: in_set_conv_nth)
  from range_step_nth[OF assms(1) k(1)] k(2) show ?thesis by simp
qed

lemma slice_shape:
  assumes "has_shape A l c" "a < b" "b \<le> l"
  shows "has_shape (slice_rows A a b) (b - a) c"
proof -
  note d = has_shapeD[OF assms(1)]
  show ?thesis
    using d assms(2,3) by (intro has_shapeI) (auto simp: slice_rows_def Let_def)
qed

lemma minibatch_chunk_shapes:
  assumes "0 < bsize" "has_shape X n d" "has_shape Y n m"
  shows "\<exists>chunks. minibatch X Y bsize = Inr chunks \<and>
           (\<forall>c\<in>set chunks. \<exists>k>0. has_shape (fst c) k d \<and> has_shape (snd c) k m)"
proof -
  let ?n = "nat bsize"
  let ?f = "\<lambda>ndx. (slice_rows X ndx (min (ndx + ?n) (nrows X)),
                    slice_rows Y ndx (min (ndx + ?n) (nrows X)))"
  have n: "0 < ?n" using assms(1) by simp
  have nx: "nrows X = n" using has_shapeD[OF assms(2)] by simp
  have mb: "minibatch X Y bsize = Inr (map ?f (range_step 0 n ?n))"
    using minibatch_chunks[OF assms(1), of X Y] nx by simp
  have "\<exists>k>0. has_shape (fst (?f ndx)) k d \<and> has_shape (snd (?f ndx)) k m"
    if "ndx \<in> set (range_step 0 n ?n)" for ndx
  proof -
    have lt: "ndx < n" using range_step_lt[OF n that] .
    then have a: "ndx < min (ndx + ?n) n" "min (ndx + ?n) n \<le> n" using n by simp_all
    let ?k = "min (ndx + ?n) n - ndx"
    have 1: "has_shape (fst (?f ndx)) ?k d"
      using slice_shape[OF assms(2) a] nx by simp
    have 2: "has_shape (snd (?f ndx)) ?k m"
      using slice_shape[OF assms(3) a] nx by simp
    have 3: "0 < ?k" using a by simp
    from 1 2 3 show ?thesis by blast
  qed
  then show ?thesis using mb by auto
qed

lemma update_w_ok:
  assumes "self_w s = Some W" "has_shape W d m" "has_shape G d m"
  shows "\<exists>W'. update_w s G = Inr (s\<lparr>self_w := Some W'\<rparr>) \<and> has_shape W' d m"
proof -
  have sg: "has_shape (map_array (\<lambda>v. self_eta s * v) G) d m"
    using assms(3) by (rule map_array_shape)
  obtain W' where W': "elementwise (-) W (map_array (\<lambda>v. self_eta s * v) G) = Inr W'"
    "has_shape W' d m"
    using elementwise_ok[OF assms(2) sg, where f = "(-)"] by blast
  have "nrows W' = nrows W \<and> ncols W' = ncols W"
    using has_shapeD[OF W'(2)] has_shapeD[OF assms(2)] by simp
  then have "update_w s G = Inr (s\<lparr>self_w := Some W'\<rparr>)"
    unfolding update_w_def
    by (simp only: get_w_Some[OF assms(1)] ebind_Inr W'(1) simp_thms if_True)
  then show ?thesis using W'(2) by blast
qed

lemma train_batches_ok:
  assumes "self_w s = Some W" "has_shape W d m"
    and "\<forall>c\<in>set bs. \<exists>k>0. has_shape (fst c) k d \<and> has_shape (snd c) k m"
  shows "\<exists>W'. train_batches s bs = Inr (s\<lparr>self_w := Some W'\<rparr>) \<and> has_shape W' d m"
  using assms
proof (induction bs arbitrary: s W)
  case Nil
  have "s = s\<lparr>self_w := Some W\<rparr>" using Nil(1) by simp
  then have "train_batches s [] = Inr (s\<lparr>self_w := Some W\<rparr>)" by simp
  then show ?case using Nil(2) by blast
next
  case (Cons b bs)
  from Cons.prems(3) obtain k where k: "0 < k" "has_shape (fst b) k d" "has_shape (snd b) k m"
    by auto
  have sy: "has_shape (map_array real_of_int (snd b)) k m" using k(3) by (rule map_array_shape)
  obtain G where G: "compute_gradient s (fst b) (map_array real_of_int (snd b)) = Inr G"
    "has_shape G d m"
    using gradient_ok[OF Cons.prems(1) k(2) Cons.prems(2) sy k(1)] by blast
  obtain W1 where W1: "update_w s G = Inr (s\<lparr>self_w := Some W1\<rparr>)" "has_shape W1 d m"
    using update_w_ok[OF Cons.prems(1,2) G(2)] by blast
  let ?s1 = "s\<lparr>self_w := Some W1\<rparr>"
  have "self_w ?s1 = Some W1" by simp
  moreover have "\<forall>c\<in>set bs. \<exists>k>0. has_shape (fst c) k d \<and> has_shape (snd c) k m"
    using Cons.prems(3) by simp
  ultimately obtain W' where W': "train_batches ?s1 bs = Inr (?s1\<lparr>self_w := Some W'\<rparr>)"
    "has_shape W' d m"
    using Cons.IH[of ?s1 W1] W1(2) by blast
  have "train_batches s (b # bs) = Inr (s\<lparr>self_w := Some W'\<rparr>)"
    using G(1) W1(1) W'(1) by simp
  then show ?case using W'(2) by blast
qed

lemma pass_ok:
  assumes "self_w s = Some W" "has_shape W d m" "has_shape X n d" "has_shape Y n m"
    and "0 < self_batch_size s"
  shows "\<exists>W'. after_epochs (Suc 0) s X Y = Inr (s\<lparr>self_w := Some W'\<rparr>) \<and> has_shape W' d m"
proof -
  obtain chunks where c: "minibatch X Y (self_batch_size s) = Inr chunks"
    "\<forall>c\<in>set chunks. \<exists>k>0. has_shape (fst c) k d \<and> has_shape (snd c) k m"
    using minibatch_chunk_shapes[OF assms(5,3,4)] by blast
  obtain W' where "train_batches s chunks = Inr (s\<lparr>self_w := Some W'\<rparr>)" "has_shape W' d m"
    using train_batches_ok[OF assms(1,2) c(2)] by blast
  then show ?thesis using c(1) by (auto simp: after_epochs_one)
qed

lemma metrics_ok:
  assumes "self_w s = Some W" "has_shape W d m" "has_shape X n d" "has_shape Y n m"
    and "0 < n" "0 < d" "0 < m"
  shows "\<exists>r. metrics s X Y = Inr r"
proof -
  have sy: "has_shape (map_array real_of_int Y) n m" using assms(4) by (rule map_array_shape)
  obtain v where v: "compute_loss s X (map_array real_of_int Y) = Inr v"
    using loss_ok[OF assms(1,3,2) sy assms(5,6,7)] by blast
  obtain P where P: "infer s X = Inr P" "has_shape P n m"
    using infer_ok[OF assms(1,3,2,7)] by blast
  have "\<exists>a. compute_accuracy P Y = Inr a"
    using accuracy_value[OF P(2) assms(4,5,7,7)] by blast
  then show ?thesis using v P(1) by (auto simp: metrics_def)
qed

lemma fit_loop_ok:
  assumes "self_w s = Some W" "has_shape W d m"
    and "has_shape xtr n d" "has_shape ytr n m" "has_shape xte n' d" "has_shape yte n' m"
    and "0 < n" "0 < n'" "0 < d" "0 < m" "0 < self_batch_size s"
  shows "\<exists>r. fit_loop k s xtr ytr xte yte a b c e = Inr r"
  using assms(1,2,11)
proof (induction k arbitrary: s W a b c e)
  case 0
  show ?case by simp
next
  case (Suc k)
  obtain W' where W': "after_epochs (Suc 0) s xtr ytr = Inr (s\<lparr>self_w := Some W'\<rparr>)"
    "has_shape W' d m"
    using pass_ok[OF Suc.prems(1,2) assms(3,4) Suc.prems(3)] by blast
  let ?s1 = "s\<lparr>self_w := Some W'\<rparr>"
  have w1: "self_w ?s1 = Some W'" and b1: "0 < self_batch_size ?s1"
    using Suc.prems(3) by simp_all
  obtain m1 m2 where mtr: "metrics ?s1 xtr ytr = Inr (m1, m2)"
    using metrics_ok[OF w1 W'(2) assms(3,4,7,9,10)] by fastforce
  obtain m3 m4 where mte: "metrics ?s1 xte yte = Inr (m3, m4)"
    using metrics_ok[OF w1 W'(2) assms(5,6,8,9,10)] by fastforce
  have ep: "epoch s xtr ytr xte yte = Inr ((m1, m2, m3, m4), ?s1)"
    using W'(1) mtr mte by (simp add: epoch_eq_Inr)
  obtain r where "fit_loop k ?s1 xtr ytr xte yte (a @ [m1]) (b @ [m2]) (c @ [m3]) (e @ [m4]) = Inr r"
    using Suc.IH[OF w1 W'(2) b1] by blast
  then show ?case using ep by simp
qed

subsection \<open>Trainer: \<open>fit\<close>\<close>

lemma fit_eq_Inr:
  "fit s xtr ytr xte yte = Inr r \<longleftrightarrow>
     (\<exists>mx Ytr Yte W0. array_max ytr = Inr mx \<and>
        make_one_versus_all_labels ytr (mx + 1) = Inr Ytr \<and>
        make_one_versus_all_labels yte (mx + 1) = Inr Yte \<and>
        zeros (ncols xtr) (mx + 1) = Inr W0 \<and>
        fit_loop (nat (self_niter s))
          (s\<lparr>self_num_features := Some (ncols xtr), self_m := Some (mx + 1), self_w := Some W0\<rparr>)
          xtr Ytr xte Yte [] [] [] [] = Inr r)"
  by (auto simp: fit_def Let_def ebind_eq_Inr)

lemma array_max_Max: "y \<noteq> [] \<Longrightarrow> array_max y = Inr (Max (set y))"
proof (cases y)
  case Nil
  assume "y \<noteq> []"
  with Nil show ?thesis by simp
next
  case (Cons x xs)
  have "Max (set (x # xs)) = fold max xs x" by (rule Max.set_eq_fold)
  then show ?thesis using Cons by (simp add: array_max_def)
qed

lemma zeros_ok: "0 \<le> c \<Longrightarrow> \<exists>W0. zeros r c = Inr W0 \<and> has_shape W0 r (nat c)"
  by (auto simp: zeros_def intro!: has_shapeI)

lemma encode_shape:
  assumes "0 < m" "\<forall>i<length y. 0 \<le> y ! i \<and> y ! i < m"
  shows "\<exists>Y. make_one_versus_all_labels y m = Inr Y \<and> has_shape Y (length y) (nat m)"
  using encode_in_range[OF assms] by (auto simp: has_shape_def)

lemma fit_ok:
  assumes "has_shape xtr n d" "has_shape xte n' d" "length ytr = n" "length yte = n'"
    and "0 < n" "0 < n'" "0 < d"
    and "\<forall>i<n. 0 \<le> ytr ! i" "\<forall>i<n'. 0 \<le> yte ! i \<and> yte ! i \<le> Max (set ytr)"
    and "0 < self_batch_size s"
  shows "\<exists>r. fit s xtr ytr xte yte = Inr r"
proof -
  let ?mx = "Max (set ytr)"
  have ne: "ytr \<noteq> []" using assms(3,5) by auto
  have am: "array_max ytr = Inr ?mx" using ne by (rule array_max_Max)
  have le: "ytr ! i \<le> ?mx" if "i < n" for i
    using that assms(3) by (intro Max_ge) auto
  have "0 \<le> ytr ! 0" "ytr ! 0 \<le> ?mx" using assms(5,8) le by auto
  then have mpos: "0 < ?mx + 1" by simp
  have "\<forall>i<length ytr. 0 \<le> ytr ! i \<and> ytr ! i < ?mx + 1"
    using assms(3,8) le by (simp add: less_Suc_eq_le zless_add1_eq)
  then obtain Ytr where Ytr: "make_one_versus_all_labels ytr (?mx + 1) = Inr Ytr"
    "has_shape Ytr n (nat (?mx + 1))"
    using encode_shape[OF mpos, of ytr] assms(3) by auto
  have "\<forall>i<length yte. 0 \<le> yte ! i \<and> yte ! i < ?mx + 1"
    using assms(4,9) by (simp add: zless_add1_eq)
  then obtain Yte where Yte: "make_one_versus_all_labels yte (?mx + 1) = Inr Yte"
    "has_shape Yte n' (nat (?mx + 1))"
    using encode_shape[OF mpos, of yte] assms(4) by auto
  obtain W0 where W0: "zeros d (?mx + 1) = Inr W0" "has_shape W0 d (nat (?mx + 1))"
    using zeros_ok[of "?mx + 1" d] mpos by auto
  let ?s3 = "s\<lparr>self_num_features := Some (ncols xtr), self_m := Some (?mx + 1),
                 self_w := Some W0\<rparr>"
  have w: "self_w ?s3 = Some W0" and b: "0 < self_batch_size ?s3"
    using assms(10) by simp_all
  have m: "0 < nat (?mx + 1)" using mpos by simp
  obtain r where "fit_loop (nat (self_niter s)) ?s3 xtr Ytr xte Yte [] [] [] [] = Inr r"
    using fit_loop_ok[OF w W0(2) assms(1) Ytr(2) assms(2) Yte(2) assms(5,6,7) m b] by blast
  moreover have "ncols xtr = d" using has_shapeD[OF assms(1)] by simp
  ultimately have "fit s xtr ytr xte yte = Inr r"
    using am Ytr(1) Yte(1) W0(1) by (auto simp: fit_eq_Inr)
  then show ?thesis by blast
qed
lemma infer_reads_w:
  assumes "self_w t = self_w s"
  shows "infer t X = infer s X"
proof -
  have g: "get_w t = get_w s" using assms by (simp add: get_w_def)
  show ?thesis unfolding infer_def g by (rule refl)
qed

lemma compute_loss_reads_w:
  assumes "self_w t = self_w s" "self_C t = self_C s"
  shows "compute_loss t X Y = compute_loss s X Y"
proof -
  have g: "get_w t = get_w s" using assms(1) by (simp add: get_w_def)
  show ?thesis unfolding compute_loss_def g assms(2) by (rule refl)
qed

lemma compute_gradient_reads_w:
  assumes "self_w t = self_w s" "self_C t = self_C s"
  shows "compute_gradient t X Y = compute_gradient s X Y"
proof -
  have g: "get_w t = get_w s" using assms(1) by (simp add: get_w_def)
  show ?thesis unfolding compute_gradient_def g assms(2) by (rule refl)
qed

lemma fit_loop_histories:
  assumes "fit_loop k s xtr ytr xte yte [] [] [] [] = Inr ((trl, tra, tel, tea), s')"
  shows "length trl = k \<and> length tra = k \<and> length tel = k \<and> length tea = k \<and>
         after_epochs k s xtr ytr = Inr s' \<and>
         (\<forall>i<k. \<exists>si. after_epochs (Suc i) s xtr ytr = Inr si \<and>
            metrics si xtr ytr = Inr (trl ! i, tra ! i) \<and>
            metrics si xte yte = Inr (tel ! i, tea ! i))"
proof -
  from fit_loop_spec[OF assms] obtain trl' tra' tel' tea' where
    r: "trl = [] @ trl'" "tra = [] @ tra'" "tel = [] @ tel'" "tea = [] @ tea'"
      "length trl' = k" "length tra' = k" "length tel' = k" "length tea' = k"
      "after_epochs k s xtr ytr = Inr s'"
      "\<forall>i<k. \<exists>si. after_epochs (Suc i) s xtr ytr = Inr si \<and>
            metrics si xtr ytr = Inr (trl' ! i, tra' ! i) \<and>
            metrics si xte yte = Inr (tel' ! i, tea' ! i)"
    by blast
  have e: "trl' = trl" "tra' = tra" "tel' = tel" "tea' = tea" using r(1-4) by simp_all
  show ?thesis using r(5-10) unfolding e by (intro conjI)
qed

text \<open>
  Claim C5. With a positive \<open>niter\<close>, a call of \<open>fit\<close> that returns has run \<open>niter\<close> epochs: each of
  the four sequences has length \<open>niter\<close>, and entry \<open>k\<close> of each is the loss or the accuracy on the
  full training or test set, measured with the weights as they stand after the mini-batch
  updates of the first \<open>k + 1\<close> epochs. On well-formed inputs (matching shapes, at least one
  row and one feature, training labels from 0 upwards, test labels within the training
  labels' range, a positive batch size) the call does return.
\<close>

theorem fit_histories:
  assumes "0 < self_niter s"
  shows "(fit s xtr ytr xte yte = Inr ((trl, tra, tel, tea), s') \<longrightarrow>
           int (length trl) = self_niter s \<and> int (length tra) = self_niter s \<and>
           int (length tel) = self_niter s \<and> int (length tea) = self_niter s \<and>
           (\<exists>mx Ytr Yte W0. array_max ytr = Inr mx \<and>
              make_one_versus_all_labels ytr (mx + 1) = Inr Ytr \<and>
              make_one_versus_all_labels yte (mx + 1) = Inr Yte \<and>
              zeros (ncols xtr) (mx + 1) = Inr W0 \<and>
              (\<forall>k<length trl. \<exists>sk.
                 after_epochs (Suc k)
                   (s\<lparr>self_num_features := Some (ncols xtr), self_m := Some (mx + 1),
                      self_w := Some W0\<rparr>) xtr Ytr = Inr sk \<and>
                 metrics sk xtr Ytr = Inr (trl ! k, tra ! k) \<and>
                 metrics sk xte Yte = Inr (tel ! k, tea ! k)))) \<and>
         (has_shape xtr n d \<and> has_shape xte n' d \<and> length ytr = n \<and> length yte = n' \<and>
            0 < n \<and> 0 < n' \<and> 0 < d \<and> (\<forall>i<n. 0 \<le> ytr ! i) \<and>
            (\<forall>i<n'. 0 \<le> yte ! i \<and> yte ! i \<le> Max (set ytr)) \<and> 0 < self_batch_size s \<longrightarrow>
          (\<exists>r. fit s xtr ytr xte yte = Inr r))"
proof (intro conjI impI)
  assume f: "fit s xtr ytr xte yte = Inr ((trl, tra, tel, tea), s')"
  then obtain mx Ytr Yte W0 where
    i: "array_max ytr = Inr mx" "make_one_versus_all_labels ytr (mx + 1) = Inr Ytr"
      "make_one_versus_all_labels yte (mx + 1) = Inr Yte" "zeros (ncols xtr) (mx + 1) = Inr W0"
    and fl: "fit_loop (nat (self_niter s))
          (s\<lparr>self_num_features := Some (ncols xtr), self_m := Some (mx + 1), self_w := Some W0\<rparr>)
          xtr Ytr xte Yte [] [] [] [] = Inr ((trl, tra, tel, tea), s')"
    unfolding fit_eq_Inr by blast
  from fit_loop_histories[OF fl] have
    len: "length trl = nat (self_niter s)" "length tra = nat (self_niter s)"
      "length tel = nat (self_niter s)" "length tea = nat (self_niter s)"
    and ent: "\<forall>k<nat (self_niter s). \<exists>sk.
                 after_epochs (Suc k)
                   (s\<lparr>self_num_features := Some (ncols xtr), self_m := Some (mx + 1),
                      self_w := Some W0\<rparr>) xtr Ytr = Inr sk \<and>
                 metrics sk xtr Ytr = Inr (trl ! k, tra ! k) \<and>
                 metrics sk xte Yte = Inr (tel ! k, tea ! k)"
    by blast+
  show "int (length trl) = self_niter s" "int (length tra) = self_niter s"
    "int (length tel) = self_niter s" "int (length tea) = self_niter s"
    using len assms by simp_all
  show "\<exists>mx Ytr Yte W0. array_max ytr = Inr mx \<and>
              make_one_versus_all_labels ytr (mx + 1) = Inr Ytr \<and>
              make_one_versus_all_labels yte (mx + 1) = Inr Yte \<and>
              zeros (ncols xtr) (mx + 1) = Inr W0 \<and>
              (\<forall>k<length trl. \<exists>sk.
                 after_epochs (Suc k)
                   (s\<lparr>self_num_features := Some (ncols xtr), self_m := Some (mx + 1),
                      self_w := Some W0\<rparr>) xtr Ytr = Inr sk \<and>
                 metrics sk xtr Ytr = Inr (trl ! k, tra ! k) \<and>
                 metrics sk xte Yte = Inr (tel ! k, tea ! k))"
    using i ent unfolding len(1) by blast
next
  assume "has_shape xtr n d \<and> has_shape xte n' d \<and> length ytr = n \<and> length yte = n' \<and>
            0 < n \<and> 0 < n' \<and> 0 < d \<and> (\<forall>i<n. 0 \<le> ytr ! i) \<and>
            (\<forall>i<n'. 0 \<le> yte ! i \<and> yte ! i \<le> Max (set ytr)) \<and> 0 < self_batch_size s"
  then show "\<exists>r. fit s xtr ytr xte yte = Inr r"
    using fit_ok[of xtr n d xte n' ytr yte s] by blast
qed

theorem fit_histories_witness:
  "\<exists>trl tra tel tea s'.
     fit (init (1 / 10) 0 2 1 False) (Array2 1 1 [[1]]) [0] (Array2 1 1 [[1]]) [0] =
       Inr ((trl, tra, tel, tea), s') \<and>
     length trl = 2 \<and> length tra = 2 \<and> length tel = 2 \<and> length tea = 2"
proof -
  let ?s = "init (1 / 10) 0 2 1 False"
  let ?x = "Array2 1 1 [[1::real]]"
  have n: "0 < self_niter ?s" by (simp add: init_def)
  have nv: "self_niter ?s = 2" by (simp add: init_def)
  have wf: "has_shape ?x 1 1 \<and> has_shape ?x 1 1 \<and> length [0::int] = 1 \<and> length [0::int] = 1 \<and>
            (0::nat) < 1 \<and> (0::nat) < 1 \<and> (0::nat) < 1 \<and> (\<forall>i<1. 0 \<le> [0::int] ! i) \<and>
            (\<forall>i<1. 0 \<le> [0::int] ! i \<and> [0::int] ! i \<le> Max (set [0])) \<and> 0 < self_batch_size ?s"
    by (simp add: has_shape_def wf_array_def init_def)
  have "\<exists>r. fit ?s ?x [0] ?x [0] = Inr r"
    by (rule mp[OF conjunct2[OF fit_histories[OF n]] wf])
  then obtain r where r: "fit ?s ?x [0] ?x [0] = Inr r" ..
  obtain trl tra tel tea s' where "r = ((trl, tra, tel, tea), s')" by (cases r) auto
  with r have f: "fit ?s ?x [0] ?x [0] = Inr ((trl, tra, tel, tea), s')" by simp
  note c = mp[OF conjunct1[OF fit_histories[OF n]] f]
  have "int (length trl) = 2" using c[THEN conjunct1] nv by simp
  moreover have "int (length tra) = 2" using c[THEN conjunct2, THEN conjunct1] nv by simp
  moreover have "int (length tel) = 2"
    using c[THEN conjunct2, THEN conjunct2, THEN conjunct1] nv by simp
  moreover have "int (length tea) = 2"
    using c[THEN conjunct2, THEN conjunct2, THEN conjunct2, THEN conjunct1] nv by simp
  ultimately have "length trl = 2 \<and> length tra = 2 \<and> length tel = 2 \<and> length tea = 2"
    by simp
  with f show ?thesis by blast
qed

text \<open>
  Claim C10. A call of \<open>fit\<close> that returns leaves the instance with \<open>num_features\<close> the column
  count of \<open>x_train\<close>, \<open>m\<close> the greatest training label plus one, and \<open>w\<close> the weights after the
  last epoch; the hyperparameters are unchanged. \<open>infer\<close>, \<open>compute_loss\<close> and
  \<open>compute_gradient\<close> take no weights: they read the stored \<open>w\<close> (and \<open>C\<close>), so on the trained
  instance they use the trained weights, while on a freshly constructed instance \<open>infer\<close>
  fails for want of them.
\<close>

theorem fit_stores_state:
  "(fit s xtr ytr xte yte = Inr (h, s') \<longrightarrow>
      self_num_features s' = Some (ncols xtr) \<and>
      (\<exists>mx Ytr W0. array_max ytr = Inr mx \<and> self_m s' = Some (mx + 1) \<and>
         make_one_versus_all_labels ytr (mx + 1) = Inr Ytr \<and>
         zeros (ncols xtr) (mx + 1) = Inr W0 \<and>
         after_epochs (nat (self_niter s))
           (s\<lparr>self_num_features := Some (ncols xtr), self_m := Some (mx + 1),
              self_w := Some W0\<rparr>) xtr Ytr = Inr s') \<and>
      (\<exists>W. self_w s' = Some W \<and>
         (\<forall>t X Y. self_w t = Some W \<and> self_C t = self_C s' \<longrightarrow>
            infer t X = infer s' X \<and> compute_loss t X Y = compute_loss s' X Y \<and>
            compute_gradient t X Y = compute_gradient s' X Y)) \<and>
      self_eta s' = self_eta s \<and> self_C s' = self_C s \<and> self_niter s' = self_niter s \<and>
      self_batch_size s' = self_batch_size s \<and> self_verbose s' = self_verbose s) \<and>
   infer (init eta C niter batch_size verbose) X = Inl AttributeError"
proof (intro conjI impI)
  assume f: "fit s xtr ytr xte yte = Inr (h, s')"
  obtain trl tra tel tea where h: "h = (trl, tra, tel, tea)" by (cases h) auto
  let ?s3 = "\<lambda>mx W0. s\<lparr>self_num_features := Some (ncols xtr), self_m := Some (mx + 1),
                         self_w := Some W0\<rparr>"
  from f obtain mx Ytr Yte W0 where
    i: "array_max ytr = Inr mx" "make_one_versus_all_labels ytr (mx + 1) = Inr Ytr"
      "zeros (ncols xtr) (mx + 1) = Inr W0"
    and fl: "fit_loop (nat (self_niter s)) (?s3 mx W0) xtr Ytr xte Yte [] [] [] [] =
               Inr ((trl, tra, tel, tea), s')"
    unfolding fit_eq_Inr h by blast
  from fit_loop_histories[OF fl] have ae: "after_epochs (nat (self_niter s)) (?s3 mx W0) xtr Ytr = Inr s'"
    by blast
  have "self_w (?s3 mx W0) \<noteq> None" by simp
  from after_epochs_frame[OF ae this] obtain W' where s': "s' = (?s3 mx W0)\<lparr>self_w := Some W'\<rparr>"
    by blast
  show "self_num_features s' = Some (ncols xtr)" using s' by simp
  show "self_eta s' = self_eta s" "self_C s' = self_C s" "self_niter s' = self_niter s"
    "self_batch_size s' = self_batch_size s" "self_verbose s' = self_verbose s"
    using s' by simp_all
  have "self_m s' = Some (mx + 1)" using s' by simp
  then show "\<exists>mx Ytr W0. array_max ytr = Inr mx \<and> self_m s' = Some (mx + 1) \<and>
         make_one_versus_all_labels ytr (mx + 1) = Inr Ytr \<and>
         zeros (ncols xtr) (mx + 1) = Inr W0 \<and>
         after_epochs (nat (self_niter s))
           (s\<lparr>self_num_features := Some (ncols xtr), self_m := Some (mx + 1),
              self_w := Some W0\<rparr>) xtr Ytr = Inr s'"
    using i ae by blast
  have w: "self_w s' = Some W'" using s' by simp
  have "infer t X = infer s' X \<and> compute_loss t X Y = compute_loss s' X Y \<and>
            compute_gradient t X Y = compute_gradient s' X Y"
    if "self_w t = Some W' \<and> self_C t = self_C s'" for t X Y
  proof -
    from that w have e: "self_w t = self_w s'" "self_C t = self_C s'" by simp_all
    show ?thesis
      using infer_reads_w[OF e(1)] compute_loss_reads_w[OF e] compute_gradient_reads_w[OF e]
      by (intro conjI)
  qed
  then show "\<exists>W. self_w s' = Some W \<and>
         (\<forall>t X Y. self_w t = Some W \<and> self_C t = self_C s' \<longrightarrow>
            infer t X = infer s' X \<and> compute_loss t X Y = compute_loss s' X Y \<and>
            compute_gradient t X Y = compute_gradient s' X Y)"
    using w by blast
next
  show "infer (init eta C niter batch_size verbose) X = Inl AttributeError"
    by (simp add: infer_def init_def get_w_def)
qed

theorem fit_stores_state_witness:
  "\<exists>h s'. fit (init (1 / 10) 0 2 1 False) (Array2 1 1 [[1]]) [0] (Array2 1 1 [[1]]) [0] = Inr (h, s') \<and>
     self_num_features s' = Some 1 \<and> self_m s' = Some 1 \<and> self_w s' \<noteq> None"
proof -
  let ?s = "init (1 / 10) 0 2 1 False"
  let ?x = "Array2 1 1 [[1::real]]"
  have "\<exists>r. fit ?s ?x [0] ?x [0] = Inr r"
    by (rule fit_ok[of ?x 1 1 ?x 1]) (simp_all add: has_shape_def wf_array_def init_def)
  then obtain r where "fit ?s ?x [0] ?x [0] = Inr r" ..
  then obtain h s' where f: "fit ?s ?x [0] ?x [0] = Inr (h, s')" by (cases r) auto
  have am: "array_max [0] = Inr 0" by (simp add: array_max_def)
  note c = mp[OF conjunct1[OF fit_stores_state] f]
  have 1: "self_num_features s' = Some 1" using c[THEN conjunct1] by simp
  from c[THEN conjunct2, THEN conjunct1] obtain mx where
    "array_max [0] = Inr mx" "self_m s' = Some (mx + 1)" by blast
  then have 2: "self_m s' = Some 1" using am by simp
  from c[THEN conjunct2, THEN conjunct2, THEN conjunct1] obtain W where "self_w s' = Some W"
    by blast
  then have 3: "self_w s' \<noteq> None" by simp
  from f 1 2 3 show ?thesis by blast
qed


end
